theory Spec2Isabelle
  imports Main "HOL-Library.Sublist"
begin

section \<open>The MAXRECTS bin packer of SpriteSheetsGenerator\<close>

text \<open>
  A shallow embedding of \<^verbatim>\<open>Rect.h\<close> and \<^verbatim>\<open>MaxRectsBinPack.cpp\<close>.

  The C++ \<^verbatim>\<open>int\<close> is modelled by the integers, and the constant \<open>INT_MAX\<close> stands for
  \<^verbatim>\<open>std::numeric_limits<int>::max()\<close>. In a packer set up with \<^verbatim>\<open>int\<close> dimensions all
  coordinates and side lengths stay in the range of \<^verbatim>\<open>int\<close>; two computed values can
  leave it. The area difference of the best area fit scorer is a product: the model wraps
  it around (\<open>int32\<close>), as the compiled program does. The contact point score is a sum
  of lengths: the model adds on the integers, and a statement that depends on the score
  being an \<^verbatim>\<open>int\<close> says so. A \<^verbatim>\<open>std::vector\<close> is a list, \<^verbatim>\<open>push_back\<close> appends
  at the end and \<^verbatim>\<open>erase(begin() + i)\<close> removes the element at index \<open>i\<close>. Member
  functions that change the packer take the packer (or the one vector they change) and
  return the new one; reference parameters that receive a score are returned as
  components of a tuple.
\<close>

subsection \<open>Rect.h\<close>

record RectSize =
  width :: int
  height :: int

record Rect =
  x :: int
  y :: int
  width :: int
  height :: int

text \<open>\<^verbatim>\<open>Rect r = {}\<close>: all four members are zero.\<close>

definition zeroRect :: Rect where
  "zeroRect = \<lparr>x = 0, y = 0, width = 0, height = 0\<rparr>"

text \<open>
  Modelled from the spec: the body of \<^verbatim>\<open>isContainedIn\<close> (declared in \<^verbatim>\<open>Rect.h\<close> with the
  comment "Returns true if a is contained in b"; its definition is in a file that is not
  part of the sources). The spec: "\<open>containedIn(a, b)\<close>: true if \<open>a\<close> lies entirely within
  \<open>b\<close>".
\<close>

definition isContainedIn :: "Rect \<Rightarrow> Rect \<Rightarrow> bool" where
  "isContainedIn a b \<longleftrightarrow>
     x a \<ge> x b \<and> y a \<ge> y b \<and>
     x a + width a \<le> x b + width b \<and>
     y a + height a \<le> y b + height b"

text \<open>\<^verbatim>\<open>DisjointRectCollection::disjoint(a, b)\<close>.\<close>

definition disjoint :: "Rect \<Rightarrow> Rect \<Rightarrow> bool" where
  "disjoint a b =
     (if x a + width a \<le> x b \<or> x b + width b \<le> x a \<or>
         y a + height a \<le> y b \<or> y b + height b \<le> y a
      then True else False)"

subsection \<open>The packer's state\<close>

datatype FreeRectChoiceHeuristic =
    RectBestShortSideFit
  | RectBestLongSideFit
  | RectBestAreaFit
  | RectBottomLeftRule
  | RectContactPointRule

record MaxRectsBinPack =
  binWidth :: int
  binHeight :: int
  usedRectangles :: "Rect list"
  freeRectangles :: "Rect list"

definition INT_MAX :: int where
  "INT_MAX = 2147483647"

text \<open>The value of a 32-bit two's complement \<^verbatim>\<open>int\<close> after wrap-around.\<close>

definition int32 :: "int \<Rightarrow> int" where
  "int32 v = (v + 2147483648) mod 4294967296 - 2147483648"

text \<open>The default constructor: a bin of size 0 with two empty vectors.\<close>

definition newPacker :: MaxRectsBinPack where
  "newPacker = \<lparr>binWidth = 0, binHeight = 0, usedRectangles = [], freeRectangles = []\<rparr>"

definition init :: "int \<Rightarrow> int \<Rightarrow> MaxRectsBinPack \<Rightarrow> MaxRectsBinPack" where
  "init w h st =
     (let n = \<lparr>x = 0, y = 0, width = w, height = h\<rparr>
      in st\<lparr>binWidth := w, binHeight := h, usedRectangles := [], freeRectangles := [n]\<rparr>)"

text \<open>\<^verbatim>\<open>v.erase(v.begin() + i)\<close>.\<close>

definition erase :: "'a list \<Rightarrow> nat \<Rightarrow> 'a list" where
  "erase xs i = take i xs @ drop (Suc i) xs"

subsection \<open>The five scorers\<close>

text \<open>
  Each scorer is a loop over \<open>freeRectangles\<close> that carries the best node and its scores.
  The step functions are the loop bodies: first the upright orientation, then the flipped
  one, each replacing the best node when its scores are better.
\<close>

definition bottomLeft_step :: "int \<Rightarrow> int \<Rightarrow> Rect \<times> int \<times> int \<Rightarrow> Rect \<Rightarrow> Rect \<times> int \<times> int" where
  "bottomLeft_step w h acc freeRect =
     (let acc1 =
        (case acc of (bestNode, bestY, bestX) \<Rightarrow>
           if width freeRect \<ge> w \<and> height freeRect \<ge> h then
             (let topSideY = y freeRect + h in
              if topSideY < bestY \<or> (topSideY = bestY \<and> x freeRect < bestX)
              then (\<lparr>x = x freeRect, y = y freeRect, width = w, height = h\<rparr>, topSideY, x freeRect)
              else acc)
           else acc)
      in case acc1 of (bestNode, bestY, bestX) \<Rightarrow>
           if width freeRect \<ge> h \<and> height freeRect \<ge> w then
             (let topSideY = y freeRect + w in
              if topSideY < bestY \<or> (topSideY = bestY \<and> x freeRect < bestX)
              then (\<lparr>x = x freeRect, y = y freeRect, width = h, height = w\<rparr>, topSideY, x freeRect)
              else acc1)
           else acc1)"

text \<open>Returns \<open>(bestNode, bestY, bestX)\<close>.\<close>

definition findPositionForNewNodeBottomLeft ::
    "int \<Rightarrow> int \<Rightarrow> MaxRectsBinPack \<Rightarrow> Rect \<times> int \<times> int" where
  "findPositionForNewNodeBottomLeft w h st =
     foldl (bottomLeft_step w h) (zeroRect, INT_MAX, INT_MAX) (freeRectangles st)"

definition bestShortSideFit_step ::
    "int \<Rightarrow> int \<Rightarrow> Rect \<times> int \<times> int \<Rightarrow> Rect \<Rightarrow> Rect \<times> int \<times> int" where
  "bestShortSideFit_step w h acc freeRect =
     (let acc1 =
        (case acc of (bestNode, bestShortSideFit, bestLongSideFit) \<Rightarrow>
           if width freeRect \<ge> w \<and> height freeRect \<ge> h then
             (let leftoverHoriz = \<bar>width freeRect - w\<bar>;
                  leftoverVert = \<bar>height freeRect - h\<bar>;
                  shortSideFit = min leftoverHoriz leftoverVert;
                  longSideFit = max leftoverHoriz leftoverVert
              in if shortSideFit < bestShortSideFit \<or>
                    (shortSideFit = bestShortSideFit \<and> longSideFit < bestLongSideFit)
                 then (\<lparr>x = x freeRect, y = y freeRect, width = w, height = h\<rparr>,
                       shortSideFit, longSideFit)
                 else acc)
           else acc)
      in case acc1 of (bestNode, bestShortSideFit, bestLongSideFit) \<Rightarrow>
           if width freeRect \<ge> h \<and> height freeRect \<ge> w then
             (let flippedLeftoverHoriz = \<bar>width freeRect - h\<bar>;
                  flippedLeftoverVert = \<bar>height freeRect - w\<bar>;
                  flippedShortSideFit = min flippedLeftoverHoriz flippedLeftoverVert;
                  flippedLongSideFit = max flippedLeftoverHoriz flippedLeftoverVert
              in if flippedShortSideFit < bestShortSideFit \<or>
                    (flippedShortSideFit = bestShortSideFit \<and> flippedLongSideFit < bestLongSideFit)
                 then (\<lparr>x = x freeRect, y = y freeRect, width = h, height = w\<rparr>,
                       flippedShortSideFit, flippedLongSideFit)
                 else acc1)
           else acc1)"

text \<open>Returns \<open>(bestNode, bestShortSideFit, bestLongSideFit)\<close>.\<close>

definition findPositionForNewNodeBestShortSideFit ::
    "int \<Rightarrow> int \<Rightarrow> MaxRectsBinPack \<Rightarrow> Rect \<times> int \<times> int" where
  "findPositionForNewNodeBestShortSideFit w h st =
     foldl (bestShortSideFit_step w h) (zeroRect, INT_MAX, INT_MAX) (freeRectangles st)"

definition bestLongSideFit_step ::
    "int \<Rightarrow> int \<Rightarrow> Rect \<times> int \<times> int \<Rightarrow> Rect \<Rightarrow> Rect \<times> int \<times> int" where
  "bestLongSideFit_step w h acc freeRect =
     (let acc1 =
        (case acc of (bestNode, bestShortSideFit, bestLongSideFit) \<Rightarrow>
           if width freeRect \<ge> w \<and> height freeRect \<ge> h then
             (let leftoverHoriz = \<bar>width freeRect - w\<bar>;
                  leftoverVert = \<bar>height freeRect - h\<bar>;
                  shortSideFit = min leftoverHoriz leftoverVert;
                  longSideFit = max leftoverHoriz leftoverVert
              in if longSideFit < bestLongSideFit \<or>
                    (longSideFit = bestLongSideFit \<and> shortSideFit < bestShortSideFit)
                 then (\<lparr>x = x freeRect, y = y freeRect, width = w, height = h\<rparr>,
                       shortSideFit, longSideFit)
                 else acc)
           else acc)
      in case acc1 of (bestNode, bestShortSideFit, bestLongSideFit) \<Rightarrow>
           if width freeRect \<ge> h \<and> height freeRect \<ge> w then
             (let leftoverHoriz = \<bar>width freeRect - h\<bar>;
                  leftoverVert = \<bar>height freeRect - w\<bar>;
                  shortSideFit = min leftoverHoriz leftoverVert;
                  longSideFit = max leftoverHoriz leftoverVert
              in if longSideFit < bestLongSideFit \<or>
                    (longSideFit = bestLongSideFit \<and> shortSideFit < bestShortSideFit)
                 then (\<lparr>x = x freeRect, y = y freeRect, width = h, height = w\<rparr>,
                       shortSideFit, longSideFit)
                 else acc1)
           else acc1)"

text \<open>Returns \<open>(bestNode, bestShortSideFit, bestLongSideFit)\<close>.\<close>

definition findPositionForNewNodeBestLongSideFit ::
    "int \<Rightarrow> int \<Rightarrow> MaxRectsBinPack \<Rightarrow> Rect \<times> int \<times> int" where
  "findPositionForNewNodeBestLongSideFit w h st =
     foldl (bestLongSideFit_step w h) (zeroRect, INT_MAX, INT_MAX) (freeRectangles st)"

definition bestAreaFit_step ::
    "int \<Rightarrow> int \<Rightarrow> Rect \<times> int \<times> int \<Rightarrow> Rect \<Rightarrow> Rect \<times> int \<times> int" where
  "bestAreaFit_step w h acc freeRect =
     (let areaFit = int32 (int32 (width freeRect * height freeRect) - int32 (w * h));
          acc1 =
        (case acc of (bestNode, bestAreaFit, bestShortSideFit) \<Rightarrow>
           if width freeRect \<ge> w \<and> height freeRect \<ge> h then
             (let leftoverHoriz = \<bar>width freeRect - w\<bar>;
                  leftoverVert = \<bar>height freeRect - h\<bar>;
                  shortSideFit = min leftoverHoriz leftoverVert
              in if areaFit < bestAreaFit \<or>
                    (areaFit = bestAreaFit \<and> shortSideFit < bestShortSideFit)
                 then (\<lparr>x = x freeRect, y = y freeRect, width = w, height = h\<rparr>,
                       areaFit, shortSideFit)
                 else acc)
           else acc)
      in case acc1 of (bestNode, bestAreaFit, bestShortSideFit) \<Rightarrow>
           if width freeRect \<ge> h \<and> height freeRect \<ge> w then
             (let leftoverHoriz = \<bar>width freeRect - h\<bar>;
                  leftoverVert = \<bar>height freeRect - w\<bar>;
                  shortSideFit = min leftoverHoriz leftoverVert
              in if areaFit < bestAreaFit \<or>
                    (areaFit = bestAreaFit \<and> shortSideFit < bestShortSideFit)
                 then (\<lparr>x = x freeRect, y = y freeRect, width = h, height = w\<rparr>,
                       areaFit, shortSideFit)
                 else acc1)
           else acc1)"

text \<open>
  Returns \<open>(bestNode, bestAreaFit, bestShortSideFit)\<close>. In the step above \<open>areaFit\<close> is an
  \<^verbatim>\<open>int\<close> computed from two products; each operation is taken with wrap-around.
\<close>

definition findPositionForNewNodeBestAreaFit ::
    "int \<Rightarrow> int \<Rightarrow> MaxRectsBinPack \<Rightarrow> Rect \<times> int \<times> int" where
  "findPositionForNewNodeBestAreaFit w h st =
     foldl (bestAreaFit_step w h) (zeroRect, INT_MAX, INT_MAX) (freeRectangles st)"

definition commonIntervalLength :: "int \<Rightarrow> int \<Rightarrow> int \<Rightarrow> int \<Rightarrow> int" where
  "commonIntervalLength i1Start i1End i2Start i2End =
     (if i1End < i2Start \<or> i2End < i1Start then 0
      else min i1End i2End - max i1Start i2Start)"

text \<open>
  The body of the loop over \<open>usedRectangles\<close> in \<^verbatim>\<open>contactPointScoreNode\<close>. The score
  is summed on the integers: it is the program's \<^verbatim>\<open>int score\<close> as long as the sum does not
  exceed \<open>INT_MAX\<close>.
\<close>

definition contactPoint_used :: "int \<Rightarrow> int \<Rightarrow> int \<Rightarrow> int \<Rightarrow> int \<Rightarrow> Rect \<Rightarrow> int" where
  "contactPoint_used px py w h score usedRect =
     (let score1 =
        (if x usedRect = px + w \<or> x usedRect + width usedRect = px
         then score + commonIntervalLength (y usedRect) (y usedRect + height usedRect) py (py + h)
         else score)
      in if y usedRect = py + h \<or> y usedRect + height usedRect = py
         then score1 + commonIntervalLength (x usedRect) (x usedRect + width usedRect) px (px + w)
         else score1)"

definition contactPointScoreNode :: "int \<Rightarrow> int \<Rightarrow> int \<Rightarrow> int \<Rightarrow> MaxRectsBinPack \<Rightarrow> int" where
  "contactPointScoreNode px py w h st =
     (let score0 = 0;
          score1 = (if px = 0 \<or> px + w = binWidth st then score0 + h else score0);
          score2 = (if py = 0 \<or> py + h = binHeight st then score1 + w else score1)
      in foldl (contactPoint_used px py w h) score2 (usedRectangles st))"

definition contactPoint_step ::
    "int \<Rightarrow> int \<Rightarrow> MaxRectsBinPack \<Rightarrow> Rect \<times> int \<Rightarrow> Rect \<Rightarrow> Rect \<times> int" where
  "contactPoint_step w h st acc freeRect =
     (let acc1 =
        (case acc of (bestNode, contactScore) \<Rightarrow>
           if width freeRect \<ge> w \<and> height freeRect \<ge> h then
             (let score = contactPointScoreNode (x freeRect) (y freeRect) w h st in
              if score > contactScore
              then (\<lparr>x = x freeRect, y = y freeRect, width = w, height = h\<rparr>, score)
              else acc)
           else acc)
      in case acc1 of (bestNode, contactScore) \<Rightarrow>
           if width freeRect \<ge> h \<and> height freeRect \<ge> w then
             (let score = contactPointScoreNode (x freeRect) (y freeRect) h w st in
              if score > contactScore
              then (\<lparr>x = x freeRect, y = y freeRect, width = h, height = w\<rparr>, score)
              else acc1)
           else acc1)"

text \<open>Returns \<open>(bestNode, contactScore)\<close>.\<close>

definition findPositionForNewNodeContactPoint ::
    "int \<Rightarrow> int \<Rightarrow> MaxRectsBinPack \<Rightarrow> Rect \<times> int" where
  "findPositionForNewNodeContactPoint w h st =
     foldl (contactPoint_step w h st) (zeroRect, - 1) (freeRectangles st)"

subsection \<open>Splitting and pruning the free list\<close>

text \<open>
  \<^verbatim>\<open>splitFreeNode\<close> changes only \<open>freeRectangles\<close>, by \<^verbatim>\<open>push_back\<close>; it takes that vector
  and returns its result with the new vector.
\<close>

definition splitFreeNode :: "Rect \<Rightarrow> Rect \<Rightarrow> Rect list \<Rightarrow> bool \<times> Rect list" where
  "splitFreeNode freeNode usedNode fr =
     (if x usedNode \<ge> x freeNode + width freeNode \<or> x usedNode + width usedNode \<le> x freeNode \<or>
         y usedNode \<ge> y freeNode + height freeNode \<or> y usedNode + height usedNode \<le> y freeNode
      then (False, fr)
      else
        (let fr2 =
           (if x usedNode < x freeNode + width freeNode \<and> x usedNode + width usedNode > x freeNode
            then
              (let fr1 =
                 (if y usedNode > y freeNode \<and> y usedNode < y freeNode + height freeNode
                  then fr @ [freeNode\<lparr>height := y usedNode - y freeNode\<rparr>]
                  else fr)
               in if y usedNode + height usedNode < y freeNode + height freeNode
                  then fr1 @ [freeNode\<lparr>y := y usedNode + height usedNode,
                                height := y freeNode + height freeNode - (y usedNode + height usedNode)\<rparr>]
                  else fr1)
            else fr);
             fr4 =
           (if y usedNode < y freeNode + height freeNode \<and> y usedNode + height usedNode > y freeNode
            then
              (let fr3 =
                 (if x usedNode > x freeNode \<and> x usedNode < x freeNode + width freeNode
                  then fr2 @ [freeNode\<lparr>width := x usedNode - x freeNode\<rparr>]
                  else fr2)
               in if x usedNode + width usedNode < x freeNode + width freeNode
                  then fr3 @ [freeNode\<lparr>x := x usedNode + width usedNode,
                                width := x freeNode + width freeNode - (x usedNode + width usedNode)\<rparr>]
                  else fr3)
            else fr2)
         in (True, fr4)))"

text \<open>
  The loop of \<^verbatim>\<open>insert\<close> and \<^verbatim>\<open>placeRect\<close> over the first \<open>numRectanglesToProcess\<close> free
  rectangles. After an erase the source decrements \<open>i\<close> and the loop header increments it
  again, so \<open>i\<close> stays; \<open>i < numRectanglesToProcess \<le> size\<close> holds throughout, so every
  read is in range.
\<close>

function splitLoop :: "Rect \<Rightarrow> nat \<Rightarrow> nat \<Rightarrow> Rect list \<Rightarrow> Rect list" where
  "splitLoop node i numRectanglesToProcess fr =
     (if i < numRectanglesToProcess then
        (let (split, fr') = splitFreeNode (fr ! i) node fr in
         if split then splitLoop node i (numRectanglesToProcess - 1) (erase fr' i)
         else splitLoop node (i + 1) numRectanglesToProcess fr')
      else fr)"
  by pat_completeness auto
termination
  by (relation "measure (\<lambda>(node, i, n, fr). n - i)") auto

declare splitLoop.simps [simp del]

text \<open>
  The inner loop of \<^verbatim>\<open>pruneFreeList\<close> for a fixed \<open>i\<close>, from \<open>j\<close> on. The flag says whether
  the loop left by \<^verbatim>\<open>break\<close>, after erasing element \<open>i\<close>.
\<close>

function pruneInner :: "nat \<Rightarrow> nat \<Rightarrow> Rect list \<Rightarrow> Rect list \<times> bool" where
  "pruneInner i j fr =
     (if j < length fr then
        (if isContainedIn (fr ! i) (fr ! j) then (erase fr i, True)
         else if isContainedIn (fr ! j) (fr ! i) then pruneInner i j (erase fr j)
         else pruneInner i (j + 1) fr)
      else (fr, False))"
  by pat_completeness auto
termination
  by (relation "measure (\<lambda>(i, j, fr). length fr - j)") (auto simp: erase_def)

declare pruneInner.simps [simp del]

lemma pruneInner_length: "length (fst (pruneInner i j fr)) \<le> length fr"
proof (induction i j fr rule: pruneInner.induct)
  case (1 i j fr)
  show ?case
  proof (cases "j < length fr")
    case False
    then show ?thesis by (simp add: pruneInner.simps [of i j fr])
  next
    case True
    then show ?thesis
      using "1.IH"
      by (subst pruneInner.simps) (auto simp: erase_def intro: order_trans)
  qed
qed

lemma pruneInner_break_length:
  "i < j \<Longrightarrow> snd (pruneInner i j fr) \<Longrightarrow> length (fst (pruneInner i j fr)) < length fr"
proof (induction i j fr rule: pruneInner.induct)
  case (1 i j fr)
  show ?case
  proof (cases "j < length fr")
    case False
    then show ?thesis using "1.prems" by (simp add: pruneInner.simps [of i j fr])
  next
    case True
    show ?thesis
    proof (cases "isContainedIn (fr ! i) (fr ! j)")
      case c1: True
      then show ?thesis using True "1.prems"
        by (subst pruneInner.simps) (auto simp: erase_def)
    next
      case c1: False
      show ?thesis
      proof (cases "isContainedIn (fr ! j) (fr ! i)")
        case c2: True
        have "pruneInner i j fr = pruneInner i j (erase fr j)"
          using True c1 c2 by (subst pruneInner.simps) simp
        moreover have "length (erase fr j) < length fr"
          using True by (simp add: erase_def)
        moreover have "length (fst (pruneInner i j (erase fr j))) \<le> length (erase fr j)"
          by (rule pruneInner_length)
        ultimately show ?thesis by simp
      next
        case c2: False
        have "pruneInner i j fr = pruneInner i (j + 1) fr"
          using True c1 c2 by (subst pruneInner.simps) simp
        then show ?thesis using "1.IH"(2) [OF True c1 c2] "1.prems" by simp
      qed
    qed
  qed
qed

text \<open>The outer loop of \<^verbatim>\<open>pruneFreeList\<close>, from \<open>i\<close> on.\<close>

function pruneOuter :: "nat \<Rightarrow> Rect list \<Rightarrow> Rect list" where
  "pruneOuter i fr =
     (if i < length fr then
        (let (fr', erased) = pruneInner i (i + 1) fr in
         if erased then pruneOuter i fr' else pruneOuter (i + 1) fr')
      else fr)"
  by pat_completeness auto
termination
proof (relation "measure (\<lambda>(i, fr). 2 * length fr - i)", goal_cases)
  case 1
  show ?case by simp
next
  case (2 i fr p fr' erased)
  then have "fr' = fst (pruneInner i (i + 1) fr)" "snd (pruneInner i (i + 1) fr)"
    by (metis fst_conv, metis snd_conv)
  then have "length fr' < length fr"
    using pruneInner_break_length [of i "i + 1" fr] by simp
  then show ?case using 2 by simp
next
  case (3 i fr p fr' erased)
  then have "fr' = fst (pruneInner i (i + 1) fr)"
    by (metis fst_conv)
  then have "length fr' \<le> length fr"
    using pruneInner_length [of i "i + 1" fr] by simp
  then show ?case using 3 by simp
qed

declare pruneOuter.simps [simp del]

definition pruneFreeList :: "MaxRectsBinPack \<Rightarrow> MaxRectsBinPack" where
  "pruneFreeList st = st\<lparr>freeRectangles := pruneOuter 0 (freeRectangles st)\<rparr>"

subsection \<open>Insertion\<close>

definition placeRect :: "Rect \<Rightarrow> MaxRectsBinPack \<Rightarrow> MaxRectsBinPack" where
  "placeRect node st =
     (let numRectanglesToProcess = length (freeRectangles st);
          st1 = st\<lparr>freeRectangles := splitLoop node 0 numRectanglesToProcess (freeRectangles st)\<rparr>;
          st2 = pruneFreeList st1
      in st2\<lparr>usedRectangles := usedRectangles st2 @ [node]\<rparr>)"

text \<open>
  The \<^verbatim>\<open>switch\<close> of the single-rectangle \<^verbatim>\<open>insert\<close>: the node found by the chosen scorer
  (the scores are not used there).
\<close>

definition insert_findPosition ::
    "int \<Rightarrow> int \<Rightarrow> FreeRectChoiceHeuristic \<Rightarrow> MaxRectsBinPack \<Rightarrow> Rect" where
  "insert_findPosition w h method st =
     (case method of
        RectBestShortSideFit \<Rightarrow> fst (findPositionForNewNodeBestShortSideFit w h st)
      | RectBottomLeftRule \<Rightarrow> fst (findPositionForNewNodeBottomLeft w h st)
      | RectContactPointRule \<Rightarrow> fst (findPositionForNewNodeContactPoint w h st)
      | RectBestLongSideFit \<Rightarrow> fst (findPositionForNewNodeBestLongSideFit w h st)
      | RectBestAreaFit \<Rightarrow> fst (findPositionForNewNodeBestAreaFit w h st))"

text \<open>\<^verbatim>\<open>Rect insert(int width, int height, FreeRectChoiceHeuristic method)\<close>.\<close>

definition insert_rect ::
    "int \<Rightarrow> int \<Rightarrow> FreeRectChoiceHeuristic \<Rightarrow> MaxRectsBinPack \<Rightarrow> Rect \<times> MaxRectsBinPack" where
  "insert_rect w h method st =
     (let newNode = insert_findPosition w h method st in
      if height newNode = 0 then (newNode, st)
      else
        (let numRectanglesToProcess = length (freeRectangles st);
             st1 = st\<lparr>freeRectangles := splitLoop newNode 0 numRectanglesToProcess (freeRectangles st)\<rparr>;
             st2 = pruneFreeList st1;
             st3 = st2\<lparr>usedRectangles := usedRectangles st2 @ [newNode]\<rparr>
         in (newNode, st3)))"

text \<open>\<^verbatim>\<open>scoreRect\<close>: returns \<open>(newNode, score1, score2)\<close>.\<close>

definition scoreRect ::
    "int \<Rightarrow> int \<Rightarrow> FreeRectChoiceHeuristic \<Rightarrow> MaxRectsBinPack \<Rightarrow> Rect \<times> int \<times> int" where
  "scoreRect w h method st =
     (let (newNode, score1, score2) =
        (case method of
           RectBestShortSideFit \<Rightarrow> findPositionForNewNodeBestShortSideFit w h st
         | RectBottomLeftRule \<Rightarrow> findPositionForNewNodeBottomLeft w h st
         | RectContactPointRule \<Rightarrow>
             (case findPositionForNewNodeContactPoint w h st of
                (n, contactScore) \<Rightarrow> (n, - contactScore, INT_MAX))
         | RectBestLongSideFit \<Rightarrow>
             (case findPositionForNewNodeBestLongSideFit w h st of
                (n, bestShortSideFit, bestLongSideFit) \<Rightarrow> (n, bestLongSideFit, bestShortSideFit))
         | RectBestAreaFit \<Rightarrow> findPositionForNewNodeBestAreaFit w h st)
      in if height newNode = 0 then (newNode, INT_MAX, INT_MAX)
         else (newNode, score1, score2))"

text \<open>
  The \<^verbatim>\<open>for\<close> loop of the batch \<^verbatim>\<open>insert\<close>: \<open>i\<close> is the index of the head of the remaining
  sizes; the accumulator is \<open>(bestScore1, bestScore2, bestRectIndex, bestNode)\<close>.
\<close>

fun bestRect_loop ::
    "FreeRectChoiceHeuristic \<Rightarrow> MaxRectsBinPack \<Rightarrow> RectSize list \<Rightarrow> nat \<Rightarrow>
     int \<times> int \<times> int \<times> Rect \<Rightarrow> int \<times> int \<times> int \<times> Rect" where
  "bestRect_loop method st [] i acc = acc"
| "bestRect_loop method st (r # rs) i (bestScore1, bestScore2, bestRectIndex, bestNode) =
     (let (newNode, score1, score2) = scoreRect (RectSize.width r) (RectSize.height r) method st in
      if score1 < bestScore1 \<or> (score1 = bestScore1 \<and> score2 < bestScore2)
      then bestRect_loop method st rs (i + 1) (score1, score2, int i, newNode)
      else bestRect_loop method st rs (i + 1) (bestScore1, bestScore2, bestRectIndex, bestNode))"

definition bestRect ::
    "FreeRectChoiceHeuristic \<Rightarrow> MaxRectsBinPack \<Rightarrow> RectSize list \<Rightarrow> int \<times> int \<times> int \<times> Rect" where
  "bestRect method st rects = bestRect_loop method st rects 0 (INT_MAX, INT_MAX, - 1, zeroRect)"

lemma bestRect_loop_index:
  "bestRect_loop method st rs i acc = (b1, b2, bi, bn) \<Longrightarrow>
     bi = fst (snd (snd acc)) \<or> (int i \<le> bi \<and> bi < int i + int (length rs))"
proof (induction rs arbitrary: i acc)
  case Nil
  then show ?case by auto
next
  case (Cons r rs)
  obtain a1 a2 ai an where acc: "acc = (a1, a2, ai, an)"
    by (cases acc) auto
  obtain n s1 s2 where sc: "scoreRect (RectSize.width r) (RectSize.height r) method st = (n, s1, s2)"
    by (cases "scoreRect (RectSize.width r) (RectSize.height r) method st") auto
  show ?case
  proof (cases "s1 < a1 \<or> (s1 = a1 \<and> s2 < a2)")
    case True
    then have "bestRect_loop method st rs (i + 1) (s1, s2, int i, n) = (b1, b2, bi, bn)"
      using Cons.prems acc sc by (auto split: if_splits)
    from Cons.IH [OF this] show ?thesis by auto
  next
    case False
    then have "bestRect_loop method st rs (i + 1) (a1, a2, ai, an) = (b1, b2, bi, bn)"
      using Cons.prems acc sc by (auto split: if_splits)
    from Cons.IH [OF this] show ?thesis using acc by auto
  qed
qed

lemma bestRect_index:
  "bestRect m st rects = (b1, b2, bi, bn) \<Longrightarrow> bi \<noteq> - 1 \<Longrightarrow> 0 \<le> bi \<and> nat bi < length rects"
  using bestRect_loop_index [of m st rects 0 "(INT_MAX, INT_MAX, - 1, zeroRect)" b1 b2 bi bn]
  by (auto simp: bestRect_def)

text \<open>
  The \<^verbatim>\<open>while\<close> loop of the batch \<^verbatim>\<open>insert\<close>. It returns the remaining sizes, the
  destination vector and the packer.
\<close>

function insert_rects_loop ::
    "RectSize list \<Rightarrow> Rect list \<Rightarrow> FreeRectChoiceHeuristic \<Rightarrow> MaxRectsBinPack \<Rightarrow>
     RectSize list \<times> Rect list \<times> MaxRectsBinPack" where
  "insert_rects_loop rects dst method st =
     (if rects \<noteq> [] then
        (let (bestScore1, bestScore2, bestRectIndex, bestNode) = bestRect method st rects in
         if bestRectIndex = - 1 then (rects, dst, st)
         else insert_rects_loop (erase rects (nat bestRectIndex)) dst method (placeRect bestNode st))
      else (rects, dst, st))"
  by pat_completeness auto
termination
proof (relation "measure (\<lambda>(rects, dst, method, st). length rects)", goal_cases)
  case 1
  show ?case by simp
next
  case (2 rects dst m st p b1 q b2 r bi bn)
  then have "bestRect m st rects = (b1, b2, bi, bn)" by simp
  from bestRect_index [OF this] 2 show ?case
    by (simp add: erase_def)
qed

declare insert_rects_loop.simps [simp del]

text \<open>\<^verbatim>\<open>void insert(std::vector<RectSize>& rects, std::vector<Rect>& dst, ...)\<close>.\<close>

definition insert_rects ::
    "RectSize list \<Rightarrow> Rect list \<Rightarrow> FreeRectChoiceHeuristic \<Rightarrow> MaxRectsBinPack \<Rightarrow>
     RectSize list \<times> Rect list \<times> MaxRectsBinPack" where
  "insert_rects rects dst method st = insert_rects_loop rects [] method st"

text \<open>A sequence of single-rectangle \<^verbatim>\<open>insert\<close> calls, each given as \<open>(width, height, method)\<close>.\<close>

fun run_inserts ::
    "MaxRectsBinPack \<Rightarrow> (int \<times> int \<times> FreeRectChoiceHeuristic) list \<Rightarrow> MaxRectsBinPack" where
  "run_inserts st [] = st"
| "run_inserts st ((w, h, method) # calls) = run_inserts (snd (insert_rect w h method st)) calls"

section \<open>Properties\<close>

subsection \<open>A failed insertion changes nothing\<close>

text \<open>
  C2. If the scorer chosen by the single-rectangle \<^verbatim>\<open>insert\<close> returns a node of height zero,
  \<^verbatim>\<open>insert\<close> returns that node, and the packer (bin size, free list and used list) is
  exactly what it was before the call.
\<close>

theorem insert_rect_failure_noop:
  "height (insert_findPosition w h method st) = 0 \<Longrightarrow>
     insert_rect w h method st = (insert_findPosition w h method st, st)"
  by (simp add: insert_rect_def)

theorem insert_rect_failure_noop_witness:
  "insert_rect 12 5 RectBestShortSideFit (init 10 10 newPacker) = (zeroRect, init 10 10 newPacker)"
  using insert_rect_failure_noop [of 12 5 RectBestShortSideFit "init 10 10 newPacker"]
  by (simp add: insert_findPosition_def findPositionForNewNodeBestShortSideFit_def init_def
      newPacker_def bestShortSideFit_step_def zeroRect_def)

subsection \<open>The batch insertion and its destination vector\<close>

text \<open>The loop of the batch \<^verbatim>\<open>insert\<close> never writes to \<open>dst\<close>.\<close>

lemma insert_rects_loop_dst: "fst (snd (insert_rects_loop rects dst m st)) = dst"
proof (induction rects dst m st rule: insert_rects_loop.induct)
  case (1 rects dst m st)
  show ?case
  proof (cases "rects = []")
    case True
    then show ?thesis by (subst insert_rects_loop.simps) simp
  next
    case False
    obtain b1 b2 bi bn where b: "bestRect m st rects = (b1, b2, bi, bn)"
      by (cases "bestRect m st rects") auto
    show ?thesis
    proof (cases "bi = - 1")
      case True
      then show ?thesis using False b by (simp add: insert_rects_loop.simps [of rects])
    next
      case nb: False
      have "insert_rects_loop rects dst m st =
            insert_rects_loop (erase rects (nat bi)) dst m (placeRect bn st)"
        using False b nb by (simp add: insert_rects_loop.simps [of rects])
      then show ?thesis using "1.IH" [OF False b [symmetric] refl refl refl nb] by simp
    qed
  qed
qed

lemma insert_rects_dst: "fst (snd (insert_rects rects dst m st)) = []"
  by (simp add: insert_rects_def insert_rects_loop_dst)

text \<open>
  C5 (the code does not do this). The batch \<^verbatim>\<open>insert\<close> should return in \<open>dst\<close> one placement
  for each size it committed. It clears \<open>dst\<close> and never appends to it: the \<^verbatim>\<open>push_back\<close> is
  commented out in \<^verbatim>\<open>placeRect\<close> under a todo. On a 4 x 4 bin the batch call with the single
  size 2 x 2 commits the placement \<open>(0, 0, 2, 2)\<close> to the used list, consumes the size, and
  returns an empty \<open>dst\<close>.
\<close>

theorem insert_rects_dst_stays_empty:
  "insert_rects [\<lparr>RectSize.width = 2, height = 2\<rparr>] [] RectBestShortSideFit (init 4 4 newPacker)
   = ([], [], \<lparr>binWidth = 4, binHeight = 4,
     usedRectangles = [\<lparr>x = 0, y = 0, width = 2, height = 2\<rparr>],
     freeRectangles =
       [\<lparr>x = 0, y = 2, width = 4, height = 2\<rparr>,
        \<lparr>x = 2, y = 0, width = 2, height = 4\<rparr>]\<rparr>)"
  by code_simp

subsection \<open>The contact point score\<close>





text \<open>The placements a scorer considers: each free region, upright and flipped, where it fits.\<close>

definition orientations :: "int \<Rightarrow> int \<Rightarrow> Rect \<Rightarrow> Rect list" where
  "orientations w h f =
     (if width f \<ge> w \<and> height f \<ge> h then [\<lparr>x = x f, y = y f, width = w, height = h\<rparr>] else []) @
     (if width f \<ge> h \<and> height f \<ge> w then [\<lparr>x = x f, y = y f, width = h, height = w\<rparr>] else [])"

definition candidates :: "int \<Rightarrow> int \<Rightarrow> Rect list \<Rightarrow> Rect list" where
  "candidates w h fr = concat (map (orientations w h) fr)"


definition cornerPacker :: MaxRectsBinPack where
  "cornerPacker = \<lparr>binWidth = 4, binHeight = 4,
     usedRectangles = [\<lparr>x = 0, y = 0, width = 2, height = 2\<rparr>],
     freeRectangles = [\<lparr>x = 0, y = 2, width = 4, height = 2\<rparr>,
                       \<lparr>x = 2, y = 0, width = 2, height = 4\<rparr>]\<rparr>"










lemma candidates_Cons: "candidates w h (f # fr) = orientations w h f @ candidates w h fr"
  by (simp add: candidates_def)






subsection \<open>Splitting a free rectangle\<close>

text \<open>
  The unit cell \<open>(px, py)\<close> lies in a rectangle; the parts of a free rectangle \<open>f\<close> above
  (smaller \<open>y\<close>), below, left of and right of a used rectangle \<open>u\<close>; and the residuals:
  those of the four parts that have positive width and height.
\<close>

definition covers :: "Rect \<Rightarrow> int \<Rightarrow> int \<Rightarrow> bool" where
  "covers r px py \<longleftrightarrow> x r \<le> px \<and> px < x r + width r \<and> y r \<le> py \<and> py < y r + height r"

definition part_above :: "Rect \<Rightarrow> Rect \<Rightarrow> Rect" where
  "part_above f u = f\<lparr>height := y u - y f\<rparr>"

definition part_below :: "Rect \<Rightarrow> Rect \<Rightarrow> Rect" where
  "part_below f u = f\<lparr>y := y u + height u, height := y f + height f - (y u + height u)\<rparr>"

definition part_left :: "Rect \<Rightarrow> Rect \<Rightarrow> Rect" where
  "part_left f u = f\<lparr>width := x u - x f\<rparr>"

definition part_right :: "Rect \<Rightarrow> Rect \<Rightarrow> Rect" where
  "part_right f u = f\<lparr>x := x u + width u, width := x f + width f - (x u + width u)\<rparr>"

definition residuals :: "Rect \<Rightarrow> Rect \<Rightarrow> Rect list" where
  "residuals f u =
     filter (\<lambda>r. 0 < width r \<and> 0 < height r)
       [part_above f u, part_below f u, part_left f u, part_right f u]"

lemma disjoint_iff:
  "disjoint a b \<longleftrightarrow>
     x a + width a \<le> x b \<or> x b + width b \<le> x a \<or>
     y a + height a \<le> y b \<or> y b + height b \<le> y a"
  by (simp add: disjoint_def)

lemma splitFreeNode_disjoint: "disjoint f u \<Longrightarrow> splitFreeNode f u fr = (False, fr)"
  by (auto simp: disjoint_iff splitFreeNode_def)

lemma splitFreeNode_residuals:
  assumes "0 < width f" "0 < height f" "\<not> disjoint f u"
  shows "splitFreeNode f u fr = (True, fr @ residuals f u)"
proof -
  have i: "x u < x f + width f" "x u + width u > x f" "y u < y f + height f" "y u + height u > y f"
    using assms(3) by (auto simp: disjoint_iff)
  have a: "(0 < width (part_above f u) \<and> 0 < height (part_above f u)) = (y u > y f)"
    using assms(1) by (simp add: part_above_def)
  have b: "(0 < width (part_below f u) \<and> 0 < height (part_below f u)) = (y u + height u < y f + height f)"
    using assms(1) by (simp add: part_below_def)
  have c: "(0 < width (part_left f u) \<and> 0 < height (part_left f u)) = (x u > x f)"
    using assms(2) by (simp add: part_left_def)
  have d: "(0 < width (part_right f u) \<and> 0 < height (part_right f u)) = (x u + width u < x f + width f)"
    using assms(2) by (simp add: part_right_def)
  have r: "residuals f u =
      (if y u > y f then [part_above f u] else []) @
      (if y u + height u < y f + height f then [part_below f u] else []) @
      (if x u > x f then [part_left f u] else []) @
      (if x u + width u < x f + width f then [part_right f u] else [])"
    unfolding residuals_def by (simp add: a b c d)
  have s: "splitFreeNode f u fr = (True, fr @
      (if y u > y f then [part_above f u] else []) @
      (if y u + height u < y f + height f then [part_below f u] else []) @
      (if x u > x f then [part_left f u] else []) @
      (if x u + width u < x f + width f then [part_right f u] else []))"
    using i by (simp add: splitFreeNode_def Let_def part_above_def part_below_def part_left_def part_right_def)
  show ?thesis by (simp only: r s)
qed

lemma erase_append_left: "i < length xs \<Longrightarrow> erase (xs @ ys) i = take i xs @ drop (Suc i) xs @ ys"
  by (simp add: erase_def)

lemma parts_cover:
  assumes "\<not> disjoint f u"
  shows "covers (part_above f u) px py = (covers f px py \<and> py < y u)"
    and "covers (part_below f u) px py = (covers f px py \<and> y u + height u \<le> py)"
    and "covers (part_left f u) px py = (covers f px py \<and> px < x u)"
    and "covers (part_right f u) px py = (covers f px py \<and> x u + width u \<le> px)"
  using assms
  by (auto simp: disjoint_iff covers_def part_above_def part_below_def part_left_def part_right_def)

subsection \<open>The round of the batch insertion\<close>

definition someSizes :: "RectSize list" where
  "someSizes = [\<lparr>RectSize.width = 3, height = 1\<rparr>, \<lparr>RectSize.width = 2, height = 2\<rparr>,
                \<lparr>RectSize.width = 5, height = 1\<rparr>]"

lemma bestRect_loop_min:
  "bestRect_loop m st rs i (b1, b2, bi, bn) = (c1, c2, ci, cn) \<Longrightarrow>
     (\<forall>k<length rs. case scoreRect (RectSize.width (rs ! k)) (RectSize.height (rs ! k)) m st of
        (n, s1, s2) \<Rightarrow> c1 < s1 \<or> (c1 = s1 \<and> c2 \<le> s2)) \<and>
     (c1 < b1 \<or> (c1 = b1 \<and> c2 \<le> b2)) \<and>
     ((c1, c2, ci, cn) = (b1, b2, bi, bn) \<or>
      (\<exists>k<length rs. ci = int (i + k) \<and>
         scoreRect (RectSize.width (rs ! k)) (RectSize.height (rs ! k)) m st = (cn, c1, c2) \<and>
         (c1 < b1 \<or> (c1 = b1 \<and> c2 < b2))))"
proof (induction rs arbitrary: i b1 b2 bi bn)
  case Nil
  then show ?case by simp
next
  case (Cons r rs)
  obtain n s1 s2 where sc: "scoreRect (RectSize.width r) (RectSize.height r) m st = (n, s1, s2)"
    by (cases "scoreRect (RectSize.width r) (RectSize.height r) m st") auto
  show ?case
  proof (cases "s1 < b1 \<or> (s1 = b1 \<and> s2 < b2)")
    case True
    then have "bestRect_loop m st rs (i + 1) (s1, s2, int i, n) = (c1, c2, ci, cn)"
      using Cons.prems sc by (auto split: if_splits)
    note IH = Cons.IH [OF this]
    have all: "\<forall>k<length (r # rs). case scoreRect (RectSize.width ((r # rs) ! k)) (RectSize.height ((r # rs) ! k)) m st of
        (n, s1, s2) \<Rightarrow> c1 < s1 \<or> (c1 = s1 \<and> c2 \<le> s2)"
    proof (intro allI impI)
      fix k assume "k < length (r # rs)"
      then show "case scoreRect (RectSize.width ((r # rs) ! k)) (RectSize.height ((r # rs) ! k)) m st of
        (n, s1, s2) \<Rightarrow> c1 < s1 \<or> (c1 = s1 \<and> c2 \<le> s2)"
        using IH sc by (cases k) auto
    qed
    have le: "c1 < b1 \<or> (c1 = b1 \<and> c2 \<le> b2)" "c1 < b1 \<or> (c1 = b1 \<and> c2 < b2)"
      using IH True by auto
    have "\<exists>k<length (r # rs). ci = int (i + k) \<and>
         scoreRect (RectSize.width ((r # rs) ! k)) (RectSize.height ((r # rs) ! k)) m st = (cn, c1, c2)"
    proof (cases "(c1, c2, ci, cn) = (s1, s2, int i, n)")
      case True
      then show ?thesis using sc by (intro exI [of _ 0]) simp
    next
      case False
      then obtain k where "k < length rs" "ci = int (i + 1 + k)"
        "scoreRect (RectSize.width (rs ! k)) (RectSize.height (rs ! k)) m st = (cn, c1, c2)"
        using IH by auto
      then show ?thesis by (intro exI [of _ "Suc k"]) simp
    qed
    then show ?thesis using all le by blast
  next
    case False
    then have "bestRect_loop m st rs (i + 1) (b1, b2, bi, bn) = (c1, c2, ci, cn)"
      using Cons.prems sc by (auto split: if_splits)
    note IH = Cons.IH [OF this]
    have all: "\<forall>k<length (r # rs). case scoreRect (RectSize.width ((r # rs) ! k)) (RectSize.height ((r # rs) ! k)) m st of
        (n, s1, s2) \<Rightarrow> c1 < s1 \<or> (c1 = s1 \<and> c2 \<le> s2)"
    proof (intro allI impI)
      fix k assume "k < length (r # rs)"
      then show "case scoreRect (RectSize.width ((r # rs) ! k)) (RectSize.height ((r # rs) ! k)) m st of
        (n, s1, s2) \<Rightarrow> c1 < s1 \<or> (c1 = s1 \<and> c2 \<le> s2)"
        using IH sc False by (cases k) auto
    qed
    have le: "c1 < b1 \<or> (c1 = b1 \<and> c2 \<le> b2)"
      using IH by auto
    have "(c1, c2, ci, cn) = (b1, b2, bi, bn) \<or> (\<exists>k<length (r # rs). ci = int (i + k) \<and>
         scoreRect (RectSize.width ((r # rs) ! k)) (RectSize.height ((r # rs) ! k)) m st = (cn, c1, c2) \<and>
         (c1 < b1 \<or> (c1 = b1 \<and> c2 < b2)))"
    proof (cases "(c1, c2, ci, cn) = (b1, b2, bi, bn)")
      case True
      then show ?thesis by simp
    next
      case False
      then obtain k where "k < length rs" "ci = int (i + 1 + k)"
        "scoreRect (RectSize.width (rs ! k)) (RectSize.height (rs ! k)) m st = (cn, c1, c2)"
        "c1 < b1 \<or> (c1 = b1 \<and> c2 < b2)"
        using IH by auto
      then show ?thesis by (intro disjI2 exI [of _ "Suc k"]) simp
    qed
    then show ?thesis using all le by blast
  qed
qed

lemma scoreRect_sentinel:
  "scoreRect w h m st = (n, s1, s2) \<Longrightarrow> height n = 0 \<Longrightarrow> s1 = INT_MAX \<and> s2 = INT_MAX"
  by (auto simp: scoreRect_def Let_def split: prod.splits if_splits)

lemma scoreRect_contactPoint:
  "scoreRect w h RectContactPointRule st = (n, s1, s2) \<Longrightarrow> height n \<noteq> 0 \<Longrightarrow>
     n = fst (findPositionForNewNodeContactPoint w h st) \<and>
     s1 = - snd (findPositionForNewNodeContactPoint w h st)"
  by (auto simp: scoreRect_def Let_def split: prod.splits if_splits)

lemma scoreRect_node_contactPoint:
  "fst (scoreRect w h RectContactPointRule st) = fst (findPositionForNewNodeContactPoint w h st)"
  by (auto simp: scoreRect_def Let_def split: prod.splits if_splits)


text \<open>
  C6. When a round of the batch insertion finds a best index \<open>bi\<close> (not \<open>-1\<close>), that index
  is in range, the node and the scores kept are the \<^verbatim>\<open>scoreRect\<close> result of the size at
  \<open>bi\<close> on the current packer, no remaining size has a smaller \<open>score1\<close>, nor an equal
  \<open>score1\<close> with a smaller \<open>score2\<close>, the node is a real placement, and the loop places
  exactly this node and erases the size at \<open>bi\<close>. Under the contact point rule the
  committed size has the highest contact score among the sizes that fit.
\<close>

theorem batch_round_commits_best:
  assumes "bestRect m st rects = (b1, b2, bi, bn)" and "bi \<noteq> - 1"
  shows "0 \<le> bi \<and> nat bi < length rects \<and>
     scoreRect (RectSize.width (rects ! nat bi)) (RectSize.height (rects ! nat bi)) m st = (bn, b1, b2) \<and>
     (\<forall>k<length rects.
        case scoreRect (RectSize.width (rects ! k)) (RectSize.height (rects ! k)) m st of
          (n, s1, s2) \<Rightarrow> b1 < s1 \<or> (b1 = s1 \<and> b2 \<le> s2)) \<and>
     height bn \<noteq> 0 \<and>
     insert_rects_loop rects dst m st =
       insert_rects_loop (erase rects (nat bi)) dst m (placeRect bn st) \<and>
     (m = RectContactPointRule \<longrightarrow>
        (\<forall>k<length rects.
           case findPositionForNewNodeContactPoint (RectSize.width (rects ! k)) (RectSize.height (rects ! k)) st of
             (n, c) \<Rightarrow> height n \<noteq> 0 \<longrightarrow>
               c \<le> snd (findPositionForNewNodeContactPoint
                          (RectSize.width (rects ! nat bi)) (RectSize.height (rects ! nat bi)) st)))"
proof -
  have loop: "bestRect_loop m st rects 0 (INT_MAX, INT_MAX, - 1, zeroRect) = (b1, b2, bi, bn)"
    using assms(1) by (simp add: bestRect_def)
  note L = bestRect_loop_min [OF loop]
  note min = L [THEN conjunct1]
  have "(b1, b2, bi, bn) \<noteq> (INT_MAX, INT_MAX, - 1, zeroRect)"
    using assms(2) by simp
  with L [THEN conjunct2, THEN conjunct2]
  have "\<exists>k<length rects. bi = int (0 + k) \<and>
         scoreRect (RectSize.width (rects ! k)) (RectSize.height (rects ! k)) m st = (bn, b1, b2) \<and>
         (b1 < INT_MAX \<or> (b1 = INT_MAX \<and> b2 < INT_MAX))"
    by (elim disjE) simp_all
  then obtain k where k: "k < length rects" "bi = int k"
    and sk: "scoreRect (RectSize.width (rects ! k)) (RectSize.height (rects ! k)) m st = (bn, b1, b2)"
    and lt: "b1 < INT_MAX \<or> (b1 = INT_MAX \<and> b2 < INT_MAX)"
    by auto
  have idx: "0 \<le> bi" "nat bi < length rects" "nat bi = k"
    using k by simp_all
  have hb: "height bn \<noteq> 0"
    using scoreRect_sentinel [OF sk] lt by auto
  have ne: "rects \<noteq> []"
    using k(1) by auto
  have step: "insert_rects_loop rects dst m st =
       insert_rects_loop (erase rects (nat bi)) dst m (placeRect bn st)"
    using ne assms by (simp add: insert_rects_loop.simps [of rects])
  have cp: "\<forall>j<length rects.
           case findPositionForNewNodeContactPoint (RectSize.width (rects ! j)) (RectSize.height (rects ! j)) st of
             (n, c) \<Rightarrow> height n \<noteq> 0 \<longrightarrow>
               c \<le> snd (findPositionForNewNodeContactPoint
                          (RectSize.width (rects ! nat bi)) (RectSize.height (rects ! nat bi)) st)"
    if m: "m = RectContactPointRule"
  proof (intro allI impI)
    fix j assume j: "j < length rects"
    obtain n c where f: "findPositionForNewNodeContactPoint (RectSize.width (rects ! j)) (RectSize.height (rects ! j)) st = (n, c)"
      by (cases "findPositionForNewNodeContactPoint (RectSize.width (rects ! j)) (RectSize.height (rects ! j)) st") auto
    have best: "b1 = - snd (findPositionForNewNodeContactPoint
                          (RectSize.width (rects ! k)) (RectSize.height (rects ! k)) st)"
      using scoreRect_contactPoint [OF sk [unfolded m] hb] by simp
    have "height n \<noteq> 0 \<longrightarrow> c \<le> - b1"
    proof
      assume hn: "height n \<noteq> 0"
      then have "scoreRect (RectSize.width (rects ! j)) (RectSize.height (rects ! j)) RectContactPointRule st
          = (n, - c, INT_MAX)"
        using f by (simp add: scoreRect_def)
      then have "b1 < - c \<or> (b1 = - c \<and> b2 \<le> INT_MAX)"
        using min j m by auto
      then show "c \<le> - b1" by auto
    qed
    then show "case findPositionForNewNodeContactPoint (RectSize.width (rects ! j)) (RectSize.height (rects ! j)) st of
             (n, c) \<Rightarrow> height n \<noteq> 0 \<longrightarrow>
               c \<le> snd (findPositionForNewNodeContactPoint
                          (RectSize.width (rects ! nat bi)) (RectSize.height (rects ! nat bi)) st)"
      using f best idx(3) by simp
  qed
  show ?thesis
    using idx(1,2) sk [folded idx(3)] min hb step cp by (intro conjI impI) assumption+
qed

theorem batch_round_commits_best_witness:
  "bestRect RectContactPointRule cornerPacker someSizes = (- 6, INT_MAX, 1, \<lparr>x = 0, y = 2, width = 2, height = 2\<rparr>) \<and>
   snd (findPositionForNewNodeContactPoint 3 1 cornerPacker) \<le> snd (findPositionForNewNodeContactPoint 2 2 cornerPacker)"
proof -
  have b: "bestRect RectContactPointRule cornerPacker someSizes =
           (- 6, INT_MAX, 1, \<lparr>x = 0, y = 2, width = 2, height = 2\<rparr>)"
    by code_simp
  have h: "height (fst (findPositionForNewNodeContactPoint 3 1 cornerPacker)) \<noteq> 0"
    by code_simp
  have "(1::int) \<noteq> - 1" by simp
  note T = batch_round_commits_best [OF b this, of "[]"]
  note C = T [THEN conjunct2, THEN conjunct2, THEN conjunct2, THEN conjunct2, THEN conjunct2,
              THEN conjunct2, THEN mp, OF refl]
  have "0 < length someSizes" by (simp add: someSizes_def)
  from C [rule_format, OF this] h
  have "snd (findPositionForNewNodeContactPoint 3 1 cornerPacker) \<le> snd (findPositionForNewNodeContactPoint 2 2 cornerPacker)"
    by (simp add: someSizes_def split: prod.splits)
  then show ?thesis using b by simp
qed

subsection \<open>Pruning\<close>

text \<open>
  The two loops of \<^verbatim>\<open>pruneFreeList\<close> seen on the list itself. \<open>pruneScan a bs\<close> is the inner
  loop for the rectangle \<open>a\<close> against the rectangles \<open>bs\<close> after it: it stops, with the flag
  set, at the first rectangle that contains \<open>a\<close>, and drops the rectangles contained in
  \<open>a\<close> that it meets before. \<open>pruneList\<close> is the outer loop. Both are shown below to
  compute what \<open>pruneInner\<close> and \<open>pruneOuter\<close> compute.
\<close>

fun pruneScan :: "Rect \<Rightarrow> Rect list \<Rightarrow> Rect list \<times> bool" where
  "pruneScan a [] = ([], False)"
| "pruneScan a (b # bs) =
     (if isContainedIn a b then (b # bs, True)
      else if isContainedIn b a then pruneScan a bs
      else (case pruneScan a bs of (bs', erased) \<Rightarrow> (b # bs', erased)))"

lemma pruneScan_length: "length (fst (pruneScan a bs)) \<le> length bs"
  by (induction bs) (auto split: prod.splits)

text \<open>The outer loop.\<close>

function pruneList :: "Rect list \<Rightarrow> Rect list" where
  "pruneList [] = []"
| "pruneList (a # xs) =
     (case pruneScan a xs of (xs', erased) \<Rightarrow>
        if erased then pruneList xs' else a # pruneList xs')"
  by pat_completeness auto
termination
proof (relation "measure length", goal_cases)
  case 1
  show ?case by simp
next
  case (2 a xs xs' erased)
  then have "xs' = fst (pruneScan a xs)" by (metis fst_conv)
  then show ?case using pruneScan_length [of a xs] by simp
next
  case (3 a xs xs' erased)
  then have "xs' = fst (pruneScan a xs)" by (metis fst_conv)
  then show ?case using pruneScan_length [of a xs] by simp
qed

text \<open>No rectangle of the list is contained in a later one, nor a later one in it.\<close>

fun antichain :: "Rect list \<Rightarrow> bool" where
  "antichain [] = True"
| "antichain (a # xs) =
     ((\<forall>b\<in>set xs. \<not> isContainedIn a b \<and> \<not> isContainedIn b a) \<and> antichain xs)"

definition prunePacker :: MaxRectsBinPack where
  "prunePacker = \<lparr>binWidth = 4, binHeight = 4, usedRectangles = [],
     freeRectangles =
       [\<lparr>x = 0, y = 0, width = 2, height = 2\<rparr>, \<lparr>x = 0, y = 0, width = 4, height = 2\<rparr>,
        \<lparr>x = 1, y = 0, width = 1, height = 1\<rparr>, \<lparr>x = 0, y = 0, width = 2, height = 4\<rparr>,
        \<lparr>x = 0, y = 0, width = 4, height = 2\<rparr>]\<rparr>"

lemma isContainedIn_refl: "isContainedIn a a"
  by (simp add: isContainedIn_def)

lemma isContainedIn_trans: "isContainedIn a b \<Longrightarrow> isContainedIn b c \<Longrightarrow> isContainedIn a c"
  by (auto simp: isContainedIn_def)

lemma isContainedIn_antisym: "isContainedIn a b \<Longrightarrow> isContainedIn b a \<Longrightarrow> a = (b::Rect)"
  by (cases a, cases b) (auto simp: isContainedIn_def)

lemma erase_length_append: "erase (xs @ v # vs) (length xs) = xs @ vs"
  by (simp add: erase_def)

lemma pruneInner_scan:
  "length pre = i \<Longrightarrow> j = i + 1 + length mid \<Longrightarrow>
     pruneInner i j (pre @ a # mid @ rest) =
       (case pruneScan a rest of (rest', erased) \<Rightarrow>
          if erased then (pre @ mid @ rest', True) else (pre @ a # mid @ rest', False))"
proof (induction rest arbitrary: mid j)
  case Nil
  then show ?case by (subst pruneInner.simps) simp
next
  case (Cons b bs)
  let ?fr = "pre @ a # mid @ b # bs"
  have j: "j < length ?fr" using Cons.prems by simp
  have fi: "?fr ! i = a" using Cons.prems by (simp add: nth_append)
  have "?fr = (pre @ a # mid) @ b # bs" by simp
  moreover have lj: "length (pre @ a # mid) = j" using Cons.prems by simp
  ultimately have fj: "?fr ! j = b" by (metis nth_append_length)
  show ?case
  proof (cases "isContainedIn a b")
    case True
    have "erase ?fr i = pre @ mid @ b # bs"
      using Cons.prems(1) erase_length_append [of pre a "mid @ b # bs"] by simp
    then show ?thesis using True j fi fj by (subst pruneInner.simps) simp
  next
    case ab: False
    show ?thesis
    proof (cases "isContainedIn b a")
      case True
      have "erase ?fr j = pre @ a # mid @ bs"
        using lj erase_length_append [of "pre @ a # mid" b bs] by simp
      then have "pruneInner i j ?fr = pruneInner i j (pre @ a # mid @ bs)"
        using True ab j fi fj by (subst pruneInner.simps) simp
      moreover have "pruneInner i j (pre @ a # mid @ bs) =
          (case pruneScan a bs of (rest', erased) \<Rightarrow>
             if erased then (pre @ mid @ rest', True) else (pre @ a # mid @ rest', False))"
        by (rule Cons.IH) (use Cons.prems in simp_all)
      ultimately show ?thesis using True ab by simp
    next
      case ba: False
      have "pruneInner i j ?fr = pruneInner i (j + 1) (pre @ a # (mid @ [b]) @ bs)"
        using ba ab j fi fj by (subst pruneInner.simps) simp
      moreover have "pruneInner i (j + 1) (pre @ a # (mid @ [b]) @ bs) =
          (case pruneScan a bs of (rest', erased) \<Rightarrow>
             if erased then (pre @ (mid @ [b]) @ rest', True)
             else (pre @ a # (mid @ [b]) @ rest', False))"
        by (rule Cons.IH) (use Cons.prems in simp_all)
      ultimately show ?thesis
        using ba ab by (simp split: prod.splits)
    qed
  qed
qed

lemma pruneOuter_list: "length pre = i \<Longrightarrow> pruneOuter i (pre @ xs) = pre @ pruneList xs"
proof (induction xs arbitrary: pre i rule: pruneList.induct)
  case 1
  then show ?case by (subst pruneOuter.simps) simp
next
  case (2 a xs)
  obtain xs' e where sc: "pruneScan a xs = (xs', e)"
    by (cases "pruneScan a xs") auto
  have inner: "pruneInner i (i + 1) (pre @ a # xs) =
        (if e then (pre @ xs', True) else (pre @ a # xs', False))"
    using pruneInner_scan [OF "2.prems", of "i + 1" "[]" a xs] sc by simp
  have lt: "i < length (pre @ a # xs)" using "2.prems" by simp
  show ?case
  proof (cases e)
    case True
    have "pruneOuter i (pre @ a # xs) = pruneOuter i (pre @ xs')"
      using inner True lt by (subst pruneOuter.simps) simp
    then show ?thesis
      using "2.IH"(1) [OF sc [symmetric] True "2.prems"] sc True by simp
  next
    case False
    have "pruneOuter i (pre @ a # xs) = pruneOuter (i + 1) ((pre @ [a]) @ xs')"
      using inner False lt by (subst pruneOuter.simps) simp
    moreover have "length (pre @ [a]) = i + 1" using "2.prems" by simp
    ultimately show ?thesis
      using "2.IH"(2) [OF sc [symmetric] False, of "pre @ [a]" "i + 1"] sc False by simp
  qed
qed

lemma pruneOuter_0: "pruneOuter 0 xs = pruneList xs"
  using pruneOuter_list [of "[]" 0 xs] by simp


lemma pruneScan_subseq: "subseq (fst (pruneScan a bs)) bs"
  by (induction bs) (auto split: prod.splits)

lemma pruneScan_set: "set (fst (pruneScan a bs)) \<subseteq> set bs"
  using pruneScan_subseq [of a bs] by (auto dest: list_emb_set)

lemma pruneScan_kept:
  "\<not> snd (pruneScan a bs) \<Longrightarrow> b \<in> set (fst (pruneScan a bs)) \<Longrightarrow>
     \<not> isContainedIn a b \<and> \<not> isContainedIn b a"
  by (induction bs) (auto split: prod.splits if_splits)

lemma pruneScan_erased:
  "snd (pruneScan a bs) \<Longrightarrow> \<exists>b\<in>set (fst (pruneScan a bs)). isContainedIn a b"
  by (induction bs) (auto split: prod.splits if_splits)

lemma pruneScan_cover:
  "c \<in> set bs \<Longrightarrow>
     (\<exists>d\<in>set (fst (pruneScan a bs)). isContainedIn c d) \<or>
     (\<not> snd (pruneScan a bs) \<and> isContainedIn c a)"
proof (induction bs)
  case Nil
  then show ?case by simp
next
  case (Cons b bs)
  show ?case
  proof (cases "isContainedIn a b")
    case True
    then show ?thesis using Cons.prems isContainedIn_refl by auto
  next
    case ab: False
    show ?thesis
    proof (cases "isContainedIn b a")
      case True
      show ?thesis
      proof (cases "c = b")
        case cb: True
        show ?thesis
        proof (cases "snd (pruneScan a bs)")
          case e: True
          then obtain d where "d \<in> set (fst (pruneScan a bs))" "isContainedIn a d"
            using pruneScan_erased by blast
          then show ?thesis
            using True ab cb isContainedIn_trans [of b a d] by auto
        next
          case False
          then show ?thesis using True ab cb by simp
        qed
      next
        case False
        then show ?thesis using Cons True ab by simp
      qed
    next
      case ba: False
      show ?thesis
      proof (cases "c = b")
        case True
        then show ?thesis using ab ba isContainedIn_refl by (auto split: prod.splits)
      next
        case False
        then have "c \<in> set bs" using Cons.prems by simp
        from Cons.IH [OF this] show ?thesis
          using ab ba by (auto split: prod.splits)
      qed
    qed
  qed
qed

lemma pruneScan_antichain:
  "(\<forall>b\<in>set bs. \<not> isContainedIn a b \<and> \<not> isContainedIn b a) \<Longrightarrow> pruneScan a bs = (bs, False)"
  by (induction bs) auto

lemma pruneList_subseq: "subseq (pruneList xs) xs"
proof (induction xs rule: pruneList.induct)
  case 1
  show ?case by simp
next
  case (2 a xs)
  obtain xs' e where sc: "pruneScan a xs = (xs', e)"
    by (cases "pruneScan a xs") auto
  have s: "subseq xs' xs" using pruneScan_subseq [of a xs] sc by simp
  show ?case
  proof (cases e)
    case True
    then have "subseq (pruneList xs') xs'" using "2.IH"(1) [OF sc [symmetric]] by simp
    then have "subseq (pruneList xs') (a # xs)" using s by (meson list_emb_Cons subseq_order.trans)
    then show ?thesis using sc True by simp
  next
    case False
    then have "subseq (pruneList xs') xs'" using "2.IH"(2) [OF sc [symmetric]] by simp
    then have "subseq (a # pruneList xs') (a # xs)" using s by (meson subseq_Cons2 subseq_order.trans)
    then show ?thesis using sc False by simp
  qed
qed

lemma pruneList_set: "set (pruneList xs) \<subseteq> set xs"
  using pruneList_subseq [of xs] by (auto dest: list_emb_set)


lemma pruneList_antichain: "antichain (pruneList xs)"
proof (induction xs rule: pruneList.induct)
  case 1
  show ?case by simp
next
  case (2 a xs)
  obtain xs' e where sc: "pruneScan a xs = (xs', e)"
    by (cases "pruneScan a xs") auto
  show ?case
  proof (cases e)
    case True
    then show ?thesis using "2.IH"(1) [OF sc [symmetric]] sc by simp
  next
    case False
    have "\<forall>b\<in>set (pruneList xs'). \<not> isContainedIn a b \<and> \<not> isContainedIn b a"
    proof
      fix b assume "b \<in> set (pruneList xs')"
      then have "b \<in> set (fst (pruneScan a xs))" using pruneList_set [of xs'] sc by auto
      moreover have "\<not> snd (pruneScan a xs)" using sc False by simp
      ultimately show "\<not> isContainedIn a b \<and> \<not> isContainedIn b a"
        by (rule pruneScan_kept [rotated])
    qed
    then show ?thesis using "2.IH"(2) [OF sc [symmetric]] sc False by simp
  qed
qed

lemma pruneList_cover: "c \<in> set xs \<Longrightarrow> \<exists>d\<in>set (pruneList xs). isContainedIn c d"
proof (induction xs arbitrary: c rule: pruneList.induct)
  case 1
  then show ?case by simp
next
  case (2 a xs)
  obtain xs' e where sc: "pruneScan a xs = (xs', e)"
    by (cases "pruneScan a xs") auto
  have IH: "\<exists>d\<in>set (pruneList xs'). isContainedIn c' d" if "c' \<in> set xs'" for c'
    using "2.IH"(1) [OF sc [symmetric] _ that] "2.IH"(2) [OF sc [symmetric] _ that]
    by (cases e) auto
  have res: "set (pruneList xs') \<subseteq> set (pruneList (a # xs))"
    using sc by auto
  have via: "\<exists>d\<in>set (pruneList (a # xs)). isContainedIn c d"
    if H: "d' \<in> set xs'" "isContainedIn c d'" for d'
  proof -
    obtain d where "d \<in> set (pruneList xs')" "isContainedIn d' d"
      using IH [OF H(1)] by blast
    then show ?thesis
      using res H(2) isContainedIn_trans [of c d' d] by blast
  qed
  show ?case
  proof (cases "c = a")
    case True
    show ?thesis
    proof (cases e)
      case e: True
      then obtain d' where "d' \<in> set xs'" "isContainedIn a d'"
        using pruneScan_erased [of a xs] sc by auto
      then show ?thesis using via True by blast
    next
      case False
      then show ?thesis using sc True isContainedIn_refl by auto
    qed
  next
    case False
    then have "c \<in> set xs" using "2.prems" by simp
    from pruneScan_cover [OF this, of a] show ?thesis
    proof
      assume "\<exists>d\<in>set (fst (pruneScan a xs)). isContainedIn c d"
      then show ?thesis using via sc by auto
    next
      assume "\<not> snd (pruneScan a xs) \<and> isContainedIn c a"
      then show ?thesis using sc by auto
    qed
  qed
qed

lemma pruneList_fixpoint: "antichain xs \<Longrightarrow> pruneList xs = xs"
  by (induction xs) (simp_all add: pruneScan_antichain)

lemma pruneList_idem: "pruneList (pruneList xs) = pruneList xs"
  by (rule pruneList_fixpoint) (rule pruneList_antichain)

lemma antichain_comparable:
  "antichain xs \<Longrightarrow> a \<in> set xs \<Longrightarrow> b \<in> set xs \<Longrightarrow> isContainedIn a b \<Longrightarrow> a = b"
  by (induction xs) auto

lemma antichain_distinct: "antichain xs \<Longrightarrow> distinct xs"
  by (induction xs) (auto simp: isContainedIn_refl)

lemma pruneList_maximal:
  "set (pruneList xs) = {a \<in> set xs. \<not> (\<exists>b\<in>set xs. b \<noteq> a \<and> isContainedIn a b)}"
proof (intro set_eqI iffI)
  fix r assume r: "r \<in> set (pruneList xs)"
  then have rx: "r \<in> set xs" using pruneList_set by blast
  have "b = r" if b: "b \<in> set xs" "isContainedIn r b" for b
  proof -
    obtain d where d: "d \<in> set (pruneList xs)" "isContainedIn b d"
      using pruneList_cover [OF b(1)] by blast
    have "isContainedIn r d" using b(2) d(2) by (rule isContainedIn_trans)
    then have "r = d" using antichain_comparable [OF pruneList_antichain r d(1)] by simp
    then show ?thesis using b(2) d(2) isContainedIn_antisym by blast
  qed
  then show "r \<in> {a \<in> set xs. \<not> (\<exists>b\<in>set xs. b \<noteq> a \<and> isContainedIn a b)}"
    using rx by blast
next
  fix a assume "a \<in> {a \<in> set xs. \<not> (\<exists>b\<in>set xs. b \<noteq> a \<and> isContainedIn a b)}"
  then have a: "a \<in> set xs" and m: "\<And>b. b \<in> set xs \<Longrightarrow> isContainedIn a b \<Longrightarrow> b = a"
    by auto
  obtain d where d: "d \<in> set (pruneList xs)" "isContainedIn a d"
    using pruneList_cover [OF a] by blast
  then have "d \<in> set xs" using pruneList_set by blast
  then have "d = a" using m d(2) by blast
  then show "a \<in> set (pruneList xs)" using d(1) by simp
qed

lemma antichain_nth:
  "antichain xs \<Longrightarrow> i < length xs \<Longrightarrow> j < length xs \<Longrightarrow> i \<noteq> j \<Longrightarrow>
     \<not> isContainedIn (xs ! i) (xs ! j)"
proof (induction xs arbitrary: i j)
  case Nil
  then show ?case by simp
next
  case (Cons a xs)
  show ?case
  proof (cases i)
    case 0
    then obtain j' where "j = Suc j'" using Cons.prems(4) by (cases j) auto
    then show ?thesis using 0 Cons.prems by auto
  next
    case (Suc i')
    show ?thesis
    proof (cases j)
      case 0
      then show ?thesis using Suc Cons.prems by auto
    next
      case j: (Suc j')
      then show ?thesis using Suc Cons.prems Cons.IH [of i' j'] by auto
    qed
  qed
qed

text \<open>
  C8. \<^verbatim>\<open>pruneFreeList\<close> applied twice gives the same list as applied once. One application
  keeps a subsequence of the free list in which no region is contained in a region at
  another position; every region of the old list is contained in a region that is kept;
  and the regions kept are exactly the regions of the list that are not contained in a
  different region of the list (of several equal regions one copy stays).
\<close>

theorem pruneFreeList_idempotent:
  "pruneFreeList (pruneFreeList st) = pruneFreeList st \<and>
   subseq (freeRectangles (pruneFreeList st)) (freeRectangles st) \<and>
   (\<forall>i j. i < length (freeRectangles (pruneFreeList st)) \<and>
          j < length (freeRectangles (pruneFreeList st)) \<and> i \<noteq> j \<longrightarrow>
      \<not> isContainedIn (freeRectangles (pruneFreeList st) ! i) (freeRectangles (pruneFreeList st) ! j)) \<and>
   (\<forall>a\<in>set (freeRectangles st). \<exists>b\<in>set (freeRectangles (pruneFreeList st)). isContainedIn a b) \<and>
   set (freeRectangles (pruneFreeList st)) =
     {a \<in> set (freeRectangles st).
        \<not> (\<exists>b\<in>set (freeRectangles st). b \<noteq> a \<and> isContainedIn a b)}"
proof -
  have f: "freeRectangles (pruneFreeList st) = pruneList (freeRectangles st)"
    by (simp add: pruneFreeList_def pruneOuter_0)
  have a: "pruneFreeList (pruneFreeList st) = pruneFreeList st"
    by (simp add: pruneFreeList_def pruneOuter_0 pruneList_idem)
  have b: "\<forall>i j. i < length (pruneList (freeRectangles st)) \<and>
          j < length (pruneList (freeRectangles st)) \<and> i \<noteq> j \<longrightarrow>
      \<not> isContainedIn (pruneList (freeRectangles st) ! i) (pruneList (freeRectangles st) ! j)"
    using antichain_nth [OF pruneList_antichain] by blast
  have c: "\<forall>a\<in>set (freeRectangles st). \<exists>b\<in>set (pruneList (freeRectangles st)). isContainedIn a b"
    using pruneList_cover by blast
  show ?thesis
    unfolding f using a b c pruneList_subseq pruneList_maximal by (intro conjI)
qed

theorem pruneFreeList_idempotent_witness:
  "pruneFreeList prunePacker =
     prunePacker\<lparr>freeRectangles :=
       [\<lparr>x = 0, y = 0, width = 2, height = 4\<rparr>, \<lparr>x = 0, y = 0, width = 4, height = 2\<rparr>]\<rparr> \<and>
   pruneFreeList (prunePacker\<lparr>freeRectangles :=
       [\<lparr>x = 0, y = 0, width = 2, height = 4\<rparr>, \<lparr>x = 0, y = 0, width = 4, height = 2\<rparr>]\<rparr>) =
     prunePacker\<lparr>freeRectangles :=
       [\<lparr>x = 0, y = 0, width = 2, height = 4\<rparr>, \<lparr>x = 0, y = 0, width = 4, height = 2\<rparr>]\<rparr>"
proof -
  have e: "pruneFreeList prunePacker =
     prunePacker\<lparr>freeRectangles :=
       [\<lparr>x = 0, y = 0, width = 2, height = 4\<rparr>, \<lparr>x = 0, y = 0, width = 4, height = 2\<rparr>]\<rparr>"
    by code_simp
  from pruneFreeList_idempotent [of prunePacker, THEN conjunct1] show ?thesis
    unfolding e by simp
qed

subsection \<open>What a scorer returns\<close>

text \<open>
  The common shape of the five loop bodies: try the upright placement, then the flipped
  one, each taken when it fits and its scores are better than the ones kept so far.
\<close>

definition genericStep ::
    "bool \<Rightarrow> ('s \<Rightarrow> bool) \<Rightarrow> Rect \<times> 's \<Rightarrow> bool \<Rightarrow> ('s \<Rightarrow> bool) \<Rightarrow> Rect \<times> 's \<Rightarrow>
     Rect \<times> 's \<Rightarrow> Rect \<times> 's" where
  "genericStep fitU betterU candU fitF betterF candF acc =
     (let acc1 = (if fitU then (if betterU (snd acc) then candU else acc) else acc)
      in if fitF then (if betterF (snd acc1) then candF else acc1) else acc1)"

text \<open>What \<^verbatim>\<open>splitFreeNode\<close> appends for the free rectangle \<open>f\<close> and the used one \<open>u\<close>.\<close>

definition appended :: "Rect \<Rightarrow> Rect \<Rightarrow> Rect list" where
  "appended f u = snd (splitFreeNode f u [])"

lemma foldl_node_cases:
  assumes "\<And>acc f. fst (step acc f) = fst acc \<or> fst (step acc f) \<in> set (orientations w h f)"
  shows "fst (foldl step acc fr) = fst acc \<or> fst (foldl step acc fr) \<in> set (candidates w h fr)"
proof (induction fr arbitrary: acc)
  case Nil
  show ?case by simp
next
  case (Cons f fr)
  show ?case
    using Cons.IH [of "step acc f"] assms [of acc f] by (auto simp: candidates_Cons)
qed

lemma genericStep_node:
  "fst (genericStep (width f \<ge> w \<and> height f \<ge> h) bU (\<lparr>x = x f, y = y f, width = w, height = h\<rparr>, sU)
          (width f \<ge> h \<and> height f \<ge> w) bF (\<lparr>x = x f, y = y f, width = h, height = w\<rparr>, sF) acc) = fst acc \<or>
   fst (genericStep (width f \<ge> w \<and> height f \<ge> h) bU (\<lparr>x = x f, y = y f, width = w, height = h\<rparr>, sU)
          (width f \<ge> h \<and> height f \<ge> w) bF (\<lparr>x = x f, y = y f, width = h, height = w\<rparr>, sF) acc)
     \<in> set (orientations w h f)"
  by (simp add: genericStep_def orientations_def Let_def)



lemma bestShortSideFit_step_generic:
  "bestShortSideFit_step w h acc f =
     genericStep (width f \<ge> w \<and> height f \<ge> h)
       (\<lambda>s. min \<bar>width f - w\<bar> \<bar>height f - h\<bar> < fst s \<or>
            (min \<bar>width f - w\<bar> \<bar>height f - h\<bar> = fst s \<and> max \<bar>width f - w\<bar> \<bar>height f - h\<bar> < snd s))
       (\<lparr>x = x f, y = y f, width = w, height = h\<rparr>,
        min \<bar>width f - w\<bar> \<bar>height f - h\<bar>, max \<bar>width f - w\<bar> \<bar>height f - h\<bar>)
       (width f \<ge> h \<and> height f \<ge> w)
       (\<lambda>s. min \<bar>width f - h\<bar> \<bar>height f - w\<bar> < fst s \<or>
            (min \<bar>width f - h\<bar> \<bar>height f - w\<bar> = fst s \<and> max \<bar>width f - h\<bar> \<bar>height f - w\<bar> < snd s))
       (\<lparr>x = x f, y = y f, width = h, height = w\<rparr>,
        min \<bar>width f - h\<bar> \<bar>height f - w\<bar>, max \<bar>width f - h\<bar> \<bar>height f - w\<bar>)
       acc"
  unfolding bestShortSideFit_step_def genericStep_def Let_def split_beta
  by (rule refl)

lemma bestLongSideFit_step_generic:
  "bestLongSideFit_step w h acc f =
     genericStep (width f \<ge> w \<and> height f \<ge> h)
       (\<lambda>s. max \<bar>width f - w\<bar> \<bar>height f - h\<bar> < snd s \<or>
            (max \<bar>width f - w\<bar> \<bar>height f - h\<bar> = snd s \<and> min \<bar>width f - w\<bar> \<bar>height f - h\<bar> < fst s))
       (\<lparr>x = x f, y = y f, width = w, height = h\<rparr>,
        min \<bar>width f - w\<bar> \<bar>height f - h\<bar>, max \<bar>width f - w\<bar> \<bar>height f - h\<bar>)
       (width f \<ge> h \<and> height f \<ge> w)
       (\<lambda>s. max \<bar>width f - h\<bar> \<bar>height f - w\<bar> < snd s \<or>
            (max \<bar>width f - h\<bar> \<bar>height f - w\<bar> = snd s \<and> min \<bar>width f - h\<bar> \<bar>height f - w\<bar> < fst s))
       (\<lparr>x = x f, y = y f, width = h, height = w\<rparr>,
        min \<bar>width f - h\<bar> \<bar>height f - w\<bar>, max \<bar>width f - h\<bar> \<bar>height f - w\<bar>)
       acc"
  unfolding bestLongSideFit_step_def genericStep_def Let_def split_beta
  by (rule refl)

lemma bestAreaFit_step_generic:
  "bestAreaFit_step w h acc f =
     genericStep (width f \<ge> w \<and> height f \<ge> h)
       (\<lambda>s. int32 (int32 (width f * height f) - int32 (w * h)) < fst s \<or>
            (int32 (int32 (width f * height f) - int32 (w * h)) = fst s \<and> min \<bar>width f - w\<bar> \<bar>height f - h\<bar> < snd s))
       (\<lparr>x = x f, y = y f, width = w, height = h\<rparr>,
        int32 (int32 (width f * height f) - int32 (w * h)), min \<bar>width f - w\<bar> \<bar>height f - h\<bar>)
       (width f \<ge> h \<and> height f \<ge> w)
       (\<lambda>s. int32 (int32 (width f * height f) - int32 (w * h)) < fst s \<or>
            (int32 (int32 (width f * height f) - int32 (w * h)) = fst s \<and> min \<bar>width f - h\<bar> \<bar>height f - w\<bar> < snd s))
       (\<lparr>x = x f, y = y f, width = h, height = w\<rparr>,
        int32 (int32 (width f * height f) - int32 (w * h)), min \<bar>width f - h\<bar> \<bar>height f - w\<bar>)
       acc"
  unfolding bestAreaFit_step_def genericStep_def Let_def split_beta
  by (rule refl)

lemma bottomLeft_step_generic:
  "bottomLeft_step w h acc f =
     genericStep (width f \<ge> w \<and> height f \<ge> h)
       (\<lambda>s. y f + h < fst s \<or> (y f + h = fst s \<and> x f < snd s))
       (\<lparr>x = x f, y = y f, width = w, height = h\<rparr>, y f + h, x f)
       (width f \<ge> h \<and> height f \<ge> w)
       (\<lambda>s. y f + w < fst s \<or> (y f + w = fst s \<and> x f < snd s))
       (\<lparr>x = x f, y = y f, width = h, height = w\<rparr>, y f + w, x f)
       acc"
  unfolding bottomLeft_step_def genericStep_def Let_def split_beta
  by (rule refl)

lemma contactPoint_step_generic:
  "contactPoint_step w h st acc f =
     genericStep (width f \<ge> w \<and> height f \<ge> h)
       (\<lambda>s. contactPointScoreNode (x f) (y f) w h st > s)
       (\<lparr>x = x f, y = y f, width = w, height = h\<rparr>, contactPointScoreNode (x f) (y f) w h st)
       (width f \<ge> h \<and> height f \<ge> w)
       (\<lambda>s. contactPointScoreNode (x f) (y f) h w st > s)
       (\<lparr>x = x f, y = y f, width = h, height = w\<rparr>, contactPointScoreNode (x f) (y f) h w st)
       acc"
  unfolding contactPoint_step_def genericStep_def Let_def split_beta
  by (rule refl)

lemma bottomLeft_step_node:
  "fst (bottomLeft_step w h acc f) = fst acc \<or> fst (bottomLeft_step w h acc f) \<in> set (orientations w h f)"
  unfolding bottomLeft_step_generic by (rule genericStep_node)

lemma bestShortSideFit_step_node:
  "fst (bestShortSideFit_step w h acc f) = fst acc \<or>
   fst (bestShortSideFit_step w h acc f) \<in> set (orientations w h f)"
  unfolding bestShortSideFit_step_generic by (rule genericStep_node)

lemma bestLongSideFit_step_node:
  "fst (bestLongSideFit_step w h acc f) = fst acc \<or>
   fst (bestLongSideFit_step w h acc f) \<in> set (orientations w h f)"
  unfolding bestLongSideFit_step_generic by (rule genericStep_node)

lemma bestAreaFit_step_node:
  "fst (bestAreaFit_step w h acc f) = fst acc \<or>
   fst (bestAreaFit_step w h acc f) \<in> set (orientations w h f)"
  unfolding bestAreaFit_step_generic by (rule genericStep_node)

lemma contactPoint_step_node:
  "fst (contactPoint_step w h st acc f) = fst acc \<or>
   fst (contactPoint_step w h st acc f) \<in> set (orientations w h f)"
  unfolding contactPoint_step_generic by (rule genericStep_node)

lemma insert_findPosition_cases:
  "insert_findPosition w h m st = zeroRect \<or>
   insert_findPosition w h m st \<in> set (candidates w h (freeRectangles st))"
proof (cases m)
  case RectBestShortSideFit
  then show ?thesis
    using foldl_node_cases [of "bestShortSideFit_step w h" w h "(zeroRect, INT_MAX, INT_MAX)" "freeRectangles st",
        OF bestShortSideFit_step_node]
    by (simp add: insert_findPosition_def findPositionForNewNodeBestShortSideFit_def)
next
  case RectBestLongSideFit
  then show ?thesis
    using foldl_node_cases [of "bestLongSideFit_step w h" w h "(zeroRect, INT_MAX, INT_MAX)" "freeRectangles st",
        OF bestLongSideFit_step_node]
    by (simp add: insert_findPosition_def findPositionForNewNodeBestLongSideFit_def)
next
  case RectBestAreaFit
  then show ?thesis
    using foldl_node_cases [of "bestAreaFit_step w h" w h "(zeroRect, INT_MAX, INT_MAX)" "freeRectangles st",
        OF bestAreaFit_step_node]
    by (simp add: insert_findPosition_def findPositionForNewNodeBestAreaFit_def)
next
  case RectBottomLeftRule
  then show ?thesis
    using foldl_node_cases [of "bottomLeft_step w h" w h "(zeroRect, INT_MAX, INT_MAX)" "freeRectangles st",
        OF bottomLeft_step_node]
    by (simp add: insert_findPosition_def findPositionForNewNodeBottomLeft_def)
next
  case RectContactPointRule
  then show ?thesis
    using foldl_node_cases [of "contactPoint_step w h st" w h "(zeroRect, - 1)" "freeRectangles st",
        OF contactPoint_step_node]
    by (simp add: insert_findPosition_def findPositionForNewNodeContactPoint_def)
qed

lemma candidates_iff:
  "n \<in> set (candidates w h fr) \<longleftrightarrow> (\<exists>f\<in>set fr. n \<in> set (orientations w h f))"
  by (auto simp: candidates_def)

lemma orientations_contained:
  "n \<in> set (orientations w h f) \<Longrightarrow> 0 \<le> w \<Longrightarrow> 0 \<le> h \<Longrightarrow>
     isContainedIn n f \<and> ((width n = w \<and> height n = h) \<or> (width n = h \<and> height n = w))"
  by (auto simp: orientations_def isContainedIn_def split: if_splits)

lemma splitFreeNode_appended:
  "splitFreeNode f u fr = (\<not> disjoint f u, fr @ appended f u)"
  by (simp add: splitFreeNode_def appended_def disjoint_iff Let_def)

lemma appended_disjoint: "disjoint f u \<Longrightarrow> appended f u = []"
  by (simp add: appended_def splitFreeNode_disjoint)

lemma appended_residuals:
  "0 < width f \<Longrightarrow> 0 < height f \<Longrightarrow> \<not> disjoint f u \<Longrightarrow> appended f u = residuals f u"
  using splitFreeNode_residuals [of f u "[]"] by (simp add: appended_def)

lemma residuals_props:
  assumes "r \<in> set (residuals f u)" and "\<not> disjoint f u"
  shows "isContainedIn r f \<and> disjoint r u \<and> 0 < width r \<and> 0 < height r"
proof -
  note mem = assms(1) [unfolded residuals_def set_filter]
  have pos: "0 < width r" "0 < height r"
    using mem by simp_all
  have i: "x u < x f + width f" "x u + width u > x f" "y u < y f + height f" "y u + height u > y f"
    using assms(2) by (auto simp: disjoint_iff)
  consider "r = part_above f u" | "r = part_below f u" | "r = part_left f u" | "r = part_right f u"
    using mem by auto
  then have "isContainedIn r f \<and> disjoint r u"
  proof cases
    case 1
    then show ?thesis using pos i by (simp add: part_above_def isContainedIn_def disjoint_iff)
  next
    case 2
    then show ?thesis using pos i by (simp add: part_below_def isContainedIn_def disjoint_iff)
  next
    case 3
    then show ?thesis using pos i by (simp add: part_left_def isContainedIn_def disjoint_iff)
  next
    case 4
    then show ?thesis using pos i by (simp add: part_right_def isContainedIn_def disjoint_iff)
  qed
  then show ?thesis using pos by simp
qed

lemma appended_props:
  assumes "r \<in> set (appended f u)" and "0 < width f" and "0 < height f"
  shows "isContainedIn r f \<and> disjoint r u \<and> 0 < width r \<and> 0 < height r"
proof (cases "disjoint f u")
  case True
  then show ?thesis using assms(1) by (simp add: appended_disjoint)
next
  case False
  then have "r \<in> set (residuals f u)"
    using assms by (simp add: appended_residuals)
  then show ?thesis using False by (rule residuals_props)
qed

lemma splitLoop_parts:
  "splitLoop u (length pre) (length pre + length todo) (pre @ todo @ app) =
     pre @ filter (\<lambda>f. disjoint f u) todo @ app @
     concat (map (\<lambda>f. appended f u) (filter (\<lambda>f. \<not> disjoint f u) todo))"
proof (induction todo arbitrary: pre app)
  case Nil
  show ?case by (subst splitLoop.simps) simp
next
  case (Cons f ts)
  let ?fr = "pre @ (f # ts) @ app"
  have fi: "?fr ! length pre = f" by (simp add: nth_append)
  show ?case
  proof (cases "disjoint f u")
    case True
    have "splitLoop u (length pre) (length pre + length (f # ts)) ?fr =
          splitLoop u (length (pre @ [f])) (length (pre @ [f]) + length ts) ((pre @ [f]) @ ts @ app)"
      using True fi by (subst splitLoop.simps) (simp add: splitFreeNode_appended appended_disjoint)
    then show ?thesis using Cons.IH [of "pre @ [f]" app] True by simp
  next
    case False
    have "erase (?fr @ appended f u) (length pre) = pre @ ts @ (app @ appended f u)"
      using erase_length_append [of pre f "ts @ app @ appended f u"] by simp
    then have "splitLoop u (length pre) (length pre + length (f # ts)) ?fr =
          splitLoop u (length pre) (length pre + length ts) (pre @ ts @ (app @ appended f u))"
      using False fi by (subst splitLoop.simps) (simp add: splitFreeNode_appended)
    then show ?thesis using Cons.IH [of pre "app @ appended f u"] False by simp
  qed
qed

lemma splitLoop_all:
  "splitLoop u 0 (length fr) fr =
     filter (\<lambda>f. disjoint f u) fr @
     concat (map (\<lambda>f. appended f u) (filter (\<lambda>f. \<not> disjoint f u) fr))"
  using splitLoop_parts [of u "[]" fr "[]"] by simp

subsection \<open>The split-and-erase loop\<close>

lemma map_appended_residuals:
  "\<forall>g\<in>set gs. 0 < width g \<and> 0 < height g \<Longrightarrow>
     map (\<lambda>g. appended g u) (filter (\<lambda>g. \<not> disjoint g u) gs) =
     map (\<lambda>g. residuals g u) (filter (\<lambda>g. \<not> disjoint g u) gs)"
  by (rule map_cong) (auto simp: appended_residuals)

lemma splitLoop_residuals:
  assumes "\<forall>g\<in>set todo. 0 < width g \<and> 0 < height g"
  shows "splitLoop u (length pre) (length pre + length todo) (pre @ todo @ app) =
     pre @ filter (\<lambda>g. disjoint g u) todo @ app @
     concat (map (\<lambda>g. residuals g u) (filter (\<lambda>g. \<not> disjoint g u) todo))"
  using splitLoop_parts [of u pre todo app] map_appended_residuals [OF assms, of u] by simp

lemma split_at_index:
  assumes "i < n" and "n \<le> length fr"
  shows "fr = take i fr @ (fr ! i # take (n - Suc i) (drop (Suc i) fr)) @ drop n fr"
    and "length (take i fr) + length (fr ! i # take (n - Suc i) (drop (Suc i) fr)) = n"
proof -
  have i: "i < length fr" using assms by simp
  have "n - Suc i + Suc i = n" using assms(1) by simp
  then have e: "drop (n - Suc i) (drop (Suc i) fr) = drop n fr"
    by (simp only: drop_drop)
  have "drop (Suc i) fr = take (n - Suc i) (drop (Suc i) fr) @ drop n fr"
    by (metis append_take_drop_id e)
  then have "drop i fr = fr ! i # take (n - Suc i) (drop (Suc i) fr) @ drop n fr"
    using Cons_nth_drop_Suc [OF i] by simp
  then have "take i fr @ drop i fr = take i fr @ (fr ! i # take (n - Suc i) (drop (Suc i) fr)) @ drop n fr"
    by simp
  then show "fr = take i fr @ (fr ! i # take (n - Suc i) (drop (Suc i) fr)) @ drop n fr"
    by simp
  show "length (take i fr) + length (fr ! i # take (n - Suc i) (drop (Suc i) fr)) = n"
    using assms by simp
qed

lemma splitLoop_from_index:
  assumes "i < n" and "n \<le> length fr" and "fr ! i = f" and "0 < width f" and "0 < height f"
    and "\<forall>g\<in>set (take (n - Suc i) (drop (Suc i) fr)). 0 < width g \<and> 0 < height g"
  shows "splitLoop u i n fr =
     take i fr @ filter (\<lambda>g. disjoint g u) (f # take (n - Suc i) (drop (Suc i) fr)) @ drop n fr @
     concat (map (\<lambda>g. residuals g u)
       (filter (\<lambda>g. \<not> disjoint g u) (f # take (n - Suc i) (drop (Suc i) fr))))"
proof -
  let ?pre = "take i fr" and ?todo = "f # take (n - Suc i) (drop (Suc i) fr)" and ?app = "drop n fr"
  have fr: "fr = ?pre @ ?todo @ ?app" and len: "length ?pre + length ?todo = n"
    using split_at_index [OF assms(1,2)] assms(3) by simp_all
  have li: "length ?pre = i" using assms(1,2) by simp
  have pos: "\<forall>g\<in>set ?todo. 0 < width g \<and> 0 < height g"
    using assms(4-6) by simp
  have "splitLoop u (length ?pre) (length ?pre + length ?todo) (?pre @ ?todo @ ?app) =
     ?pre @ filter (\<lambda>g. disjoint g u) ?todo @ ?app @
     concat (map (\<lambda>g. residuals g u) (filter (\<lambda>g. \<not> disjoint g u) ?todo))"
    using pos by (rule splitLoop_residuals)
  moreover have "splitLoop u (length ?pre) (length ?pre + length ?todo) (?pre @ ?todo @ ?app) =
      splitLoop u i n fr"
    by (metis fr len li)
  ultimately show ?thesis by (simp only:)
qed


text \<open>
  C7. Let \<open>f\<close> be the free rectangle at index \<open>i\<close> (of positive width and height, as every
  free rectangle of a packer is), in the part of the list the loop still has to process.
  If the used rectangle \<open>u\<close> does not intersect \<open>f\<close>, \<^verbatim>\<open>splitFreeNode\<close> returns false, the
  free list is unchanged and the loop goes on with the next index. If it does,
  \<^verbatim>\<open>splitFreeNode\<close> returns true after appending the residuals, and the loop erases \<open>f\<close> and
  goes on at the same index with one rectangle less to process. The residuals are at most
  four, each of positive width and height, and they are exactly those of the parts of \<open>f\<close>
  above, below, left of and right of \<open>u\<close> that are not empty.

  The list the loop ends with, from this point on: the rectangles before index \<open>i\<close>, then
  \<open>f\<close> if \<open>u\<close> does not intersect it, then those of the rectangles still to process that
  \<open>u\<close> does not intersect, then the rectangles appended before, then the residuals of \<open>f\<close>
  if \<open>u\<close> intersects it, then the residuals of the other rectangles that \<open>u\<close> intersects.
  For the whole loop of an insertion: the free rectangles that \<open>u\<close> does not intersect, in
  their order, followed by the residuals of those it intersects.
\<close>

theorem split_and_erase:
  assumes "0 < width f" and "0 < height f" and "i < n" and "i < length fr" and "fr ! i = f"
  shows "(disjoint f u \<longrightarrow>
            splitFreeNode f u fr = (False, fr) \<and>
            splitLoop u i n fr = splitLoop u (i + 1) n fr) \<and>
         (\<not> disjoint f u \<longrightarrow>
            splitFreeNode f u fr = (True, fr @ residuals f u) \<and>
            splitLoop u i n fr =
              splitLoop u i (n - 1) (take i fr @ drop (Suc i) fr @ residuals f u) \<and>
            length (residuals f u) \<le> 4 \<and>
            (\<forall>r\<in>set (residuals f u). 0 < width r \<and> 0 < height r) \<and>
            (\<forall>px py.
               covers (part_above f u) px py = (covers f px py \<and> py < y u) \<and>
               covers (part_below f u) px py = (covers f px py \<and> y u + height u \<le> py) \<and>
               covers (part_left f u) px py = (covers f px py \<and> px < x u) \<and>
               covers (part_right f u) px py = (covers f px py \<and> x u + width u \<le> px))) \<and>
         (n \<le> length fr \<and>
          (\<forall>g\<in>set (take (n - Suc i) (drop (Suc i) fr)). 0 < width g \<and> 0 < height g) \<longrightarrow>
            splitLoop u i n fr =
              take i fr @ (if disjoint f u then [f] else []) @
              filter (\<lambda>g. disjoint g u) (take (n - Suc i) (drop (Suc i) fr)) @ drop n fr @
              (if disjoint f u then [] else residuals f u) @
              concat (map (\<lambda>g. residuals g u)
                (filter (\<lambda>g. \<not> disjoint g u) (take (n - Suc i) (drop (Suc i) fr))))) \<and>
         ((\<forall>g\<in>set frs. 0 < width g \<and> 0 < height g) \<longrightarrow>
            splitLoop u 0 (length frs) frs =
              filter (\<lambda>g. disjoint g u) frs @
              concat (map (\<lambda>g. residuals g u) (filter (\<lambda>g. \<not> disjoint g u) frs)))"
proof (intro conjI impI)
  assume d: "disjoint f u"
  show "splitFreeNode f u fr = (False, fr)"
    using d by (rule splitFreeNode_disjoint)
  then show "splitLoop u i n fr = splitLoop u (i + 1) n fr"
    using assms(3,5) by (subst splitLoop.simps) simp
next
  assume nd: "\<not> disjoint f u"
  show s: "splitFreeNode f u fr = (True, fr @ residuals f u)"
    using assms(1,2) nd by (rule splitFreeNode_residuals)
  show "splitLoop u i n fr = splitLoop u i (n - 1) (take i fr @ drop (Suc i) fr @ residuals f u)"
    using assms(3,4,5) s by (subst splitLoop.simps) (simp add: erase_append_left)
  show "length (residuals f u) \<le> 4"
    by (simp add: residuals_def)
  show "\<forall>r\<in>set (residuals f u). 0 < width r \<and> 0 < height r"
    by (simp add: residuals_def)
  show "\<forall>px py.
       covers (part_above f u) px py = (covers f px py \<and> py < y u) \<and>
       covers (part_below f u) px py = (covers f px py \<and> y u + height u \<le> py) \<and>
       covers (part_left f u) px py = (covers f px py \<and> px < x u) \<and>
       covers (part_right f u) px py = (covers f px py \<and> x u + width u \<le> px)"
    using parts_cover [OF nd] by simp
next
  assume a: "n \<le> length fr \<and>
          (\<forall>g\<in>set (take (n - Suc i) (drop (Suc i) fr)). 0 < width g \<and> 0 < height g)"
  from splitLoop_from_index [OF assms(3) a [THEN conjunct1] assms(5,1,2) a [THEN conjunct2], of u]
  show "splitLoop u i n fr =
              take i fr @ (if disjoint f u then [f] else []) @
              filter (\<lambda>g. disjoint g u) (take (n - Suc i) (drop (Suc i) fr)) @ drop n fr @
              (if disjoint f u then [] else residuals f u) @
              concat (map (\<lambda>g. residuals g u)
                (filter (\<lambda>g. \<not> disjoint g u) (take (n - Suc i) (drop (Suc i) fr))))"
    by simp
next
  assume "\<forall>g\<in>set frs. 0 < width g \<and> 0 < height g"
  from splitLoop_residuals [OF this, of u "[]" "[]"]
  show "splitLoop u 0 (length frs) frs =
              filter (\<lambda>g. disjoint g u) frs @
              concat (map (\<lambda>g. residuals g u) (filter (\<lambda>g. \<not> disjoint g u) frs))"
    by simp
qed

theorem split_and_erase_witness:
  "splitFreeNode \<lparr>x = 0, y = 0, width = 4, height = 4\<rparr> \<lparr>x = 1, y = 0, width = 2, height = 2\<rparr> [\<lparr>x = 0, y = 0, width = 4, height = 4\<rparr>] = (True, [\<lparr>x = 0, y = 0, width = 4, height = 4\<rparr>, \<lparr>x = 0, y = 2, width = 4, height = 2\<rparr>, \<lparr>x = 0, y = 0, width = 1, height = 4\<rparr>, \<lparr>x = 3, y = 0, width = 1, height = 4\<rparr>]) \<and>
   splitFreeNode \<lparr>x = 0, y = 2, width = 4, height = 2\<rparr> \<lparr>x = 1, y = 0, width = 2, height = 2\<rparr> [\<lparr>x = 0, y = 2, width = 4, height = 2\<rparr>] = (False, [\<lparr>x = 0, y = 2, width = 4, height = 2\<rparr>]) \<and>
   splitLoop \<lparr>x = 1, y = 0, width = 2, height = 2\<rparr> 1 2 [\<lparr>x = 0, y = 2, width = 4, height = 2\<rparr>, \<lparr>x = 0, y = 0, width = 4, height = 4\<rparr>] = [\<lparr>x = 0, y = 2, width = 4, height = 2\<rparr>, \<lparr>x = 0, y = 2, width = 4, height = 2\<rparr>, \<lparr>x = 0, y = 0, width = 1, height = 4\<rparr>, \<lparr>x = 3, y = 0, width = 1, height = 4\<rparr>] \<and>
   splitLoop \<lparr>x = 1, y = 0, width = 2, height = 2\<rparr> 0 2 [\<lparr>x = 0, y = 2, width = 4, height = 2\<rparr>, \<lparr>x = 0, y = 0, width = 4, height = 4\<rparr>] = [\<lparr>x = 0, y = 2, width = 4, height = 2\<rparr>, \<lparr>x = 0, y = 2, width = 4, height = 2\<rparr>, \<lparr>x = 0, y = 0, width = 1, height = 4\<rparr>, \<lparr>x = 3, y = 0, width = 1, height = 4\<rparr>]"
proof -
  have r: "residuals \<lparr>x = 0, y = 0, width = 4, height = 4\<rparr> \<lparr>x = 1, y = 0, width = 2, height = 2\<rparr> = [\<lparr>x = 0, y = 2, width = 4, height = 2\<rparr>, \<lparr>x = 0, y = 0, width = 1, height = 4\<rparr>, \<lparr>x = 3, y = 0, width = 1, height = 4\<rparr>]"
    by (simp add: residuals_def part_above_def part_below_def part_left_def part_right_def)
  have d: "\<not> disjoint \<lparr>x = 0, y = 0, width = 4, height = 4\<rparr> \<lparr>x = 1, y = 0, width = 2, height = 2\<rparr>"
    by (simp add: disjoint_iff)
  have d': "disjoint \<lparr>x = 0, y = 2, width = 4, height = 2\<rparr> \<lparr>x = 1, y = 0, width = 2, height = 2\<rparr>"
    by (simp add: disjoint_iff)
  note T = split_and_erase [of "\<lparr>x = 0, y = 0, width = 4, height = 4\<rparr>" 1 2 "[\<lparr>x = 0, y = 2, width = 4, height = 2\<rparr>, \<lparr>x = 0, y = 0, width = 4, height = 4\<rparr>]" "\<lparr>x = 1, y = 0, width = 2, height = 2\<rparr>" "[\<lparr>x = 0, y = 2, width = 4, height = 2\<rparr>, \<lparr>x = 0, y = 0, width = 4, height = 4\<rparr>]"]
  note T' = split_and_erase [of "\<lparr>x = 0, y = 0, width = 4, height = 4\<rparr>" 0 1 "[\<lparr>x = 0, y = 0, width = 4, height = 4\<rparr>]" "\<lparr>x = 1, y = 0, width = 2, height = 2\<rparr>" "[]"]
  note T'' = split_and_erase [of "\<lparr>x = 0, y = 2, width = 4, height = 2\<rparr>" 0 1 "[\<lparr>x = 0, y = 2, width = 4, height = 2\<rparr>]" "\<lparr>x = 1, y = 0, width = 2, height = 2\<rparr>" "[]"]
  have A: "splitFreeNode \<lparr>x = 0, y = 0, width = 4, height = 4\<rparr> \<lparr>x = 1, y = 0, width = 2, height = 2\<rparr> [\<lparr>x = 0, y = 0, width = 4, height = 4\<rparr>] = (True, [\<lparr>x = 0, y = 0, width = 4, height = 4\<rparr>] @ residuals \<lparr>x = 0, y = 0, width = 4, height = 4\<rparr> \<lparr>x = 1, y = 0, width = 2, height = 2\<rparr>)"
    using T' d by simp
  have B: "splitFreeNode \<lparr>x = 0, y = 2, width = 4, height = 2\<rparr> \<lparr>x = 1, y = 0, width = 2, height = 2\<rparr> [\<lparr>x = 0, y = 2, width = 4, height = 2\<rparr>] = (False, [\<lparr>x = 0, y = 2, width = 4, height = 2\<rparr>])"
    using T'' d' by simp
  have C: "splitLoop \<lparr>x = 1, y = 0, width = 2, height = 2\<rparr> 1 2 [\<lparr>x = 0, y = 2, width = 4, height = 2\<rparr>, \<lparr>x = 0, y = 0, width = 4, height = 4\<rparr>] = [\<lparr>x = 0, y = 2, width = 4, height = 2\<rparr>] @ residuals \<lparr>x = 0, y = 0, width = 4, height = 4\<rparr> \<lparr>x = 1, y = 0, width = 2, height = 2\<rparr>"
    using T [THEN conjunct2, THEN conjunct2, THEN conjunct1] d by simp
  have D: "splitLoop \<lparr>x = 1, y = 0, width = 2, height = 2\<rparr> 0 2 [\<lparr>x = 0, y = 2, width = 4, height = 2\<rparr>, \<lparr>x = 0, y = 0, width = 4, height = 4\<rparr>] = [\<lparr>x = 0, y = 2, width = 4, height = 2\<rparr>] @ residuals \<lparr>x = 0, y = 0, width = 4, height = 4\<rparr> \<lparr>x = 1, y = 0, width = 2, height = 2\<rparr>"
    using T [THEN conjunct2, THEN conjunct2, THEN conjunct2] d d' by (simp add: numeral_2_eq_2)
  show ?thesis using A B C D by (simp add: r)
qed

subsection \<open>The invariant of the packer\<close>

text \<open>A rectangle lies in the bin of the packer.\<close>

definition withinBin :: "MaxRectsBinPack \<Rightarrow> Rect \<Rightarrow> bool" where
  "withinBin st r \<longleftrightarrow>
     0 \<le> x r \<and> 0 \<le> y r \<and> x r + width r \<le> binWidth st \<and> y r + height r \<le> binHeight st"

definition positive :: "Rect \<Rightarrow> bool" where
  "positive r \<longleftrightarrow> 0 < width r \<and> 0 < height r"

text \<open>Every rectangle of the list is disjoint from every later one.\<close>

fun pairwiseDisjoint :: "Rect list \<Rightarrow> bool" where
  "pairwiseDisjoint [] = True"
| "pairwiseDisjoint (r # rs) = ((\<forall>u\<in>set rs. disjoint r u) \<and> pairwiseDisjoint rs)"

text \<open>
  The invariant of the packer: free and used rectangles lie in the bin and have positive
  width and height, no free rectangle overlaps a used one, and the used ones are pairwise
  disjoint.
\<close>

definition packerInv :: "MaxRectsBinPack \<Rightarrow> bool" where
  "packerInv st \<longleftrightarrow>
     (\<forall>f\<in>set (freeRectangles st). withinBin st f \<and> positive f) \<and>
     (\<forall>u\<in>set (usedRectangles st). withinBin st u \<and> positive u) \<and>
     (\<forall>f\<in>set (freeRectangles st). \<forall>u\<in>set (usedRectangles st). disjoint f u) \<and>
     pairwiseDisjoint (usedRectangles st)"

text \<open>Every call of the sequence requests a positive width and height.\<close>

definition positiveCalls :: "(int \<times> int \<times> FreeRectChoiceHeuristic) list \<Rightarrow> bool" where
  "positiveCalls calls \<longleftrightarrow> (\<forall>c\<in>set calls. 0 < fst c \<and> 0 < fst (snd c))"

lemma disjoint_sym: "disjoint a b \<Longrightarrow> disjoint b a"
  by (auto simp: disjoint_iff)

lemma disjoint_contained: "isContainedIn n f \<Longrightarrow> disjoint f u \<Longrightarrow> disjoint n u"
  by (auto simp: disjoint_iff isContainedIn_def)

lemma withinBin_contained: "isContainedIn n f \<Longrightarrow> withinBin st f \<Longrightarrow> withinBin st n"
  by (auto simp: withinBin_def isContainedIn_def)

lemma pairwiseDisjoint_snoc:
  "pairwiseDisjoint (us @ [n]) \<longleftrightarrow> pairwiseDisjoint us \<and> (\<forall>u\<in>set us. disjoint u n)"
  by (induction us) auto

lemma pairwiseDisjoint_nth:
  "pairwiseDisjoint us \<Longrightarrow> i < j \<Longrightarrow> j < length us \<Longrightarrow> disjoint (us ! i) (us ! j)"
proof (induction us arbitrary: i j)
  case Nil
  then show ?case by simp
next
  case (Cons u us)
  show ?case
  proof (cases i)
    case 0
    then show ?thesis using Cons.prems by (cases j) auto
  next
    case (Suc i')
    then obtain j' where "j = Suc j'" using Cons.prems by (cases j) auto
    then show ?thesis using Cons Suc by auto
  qed
qed

lemma packerInv_init: "0 < bw \<Longrightarrow> 0 < bh \<Longrightarrow> packerInv (init bw bh st)"
  by (simp add: packerInv_def init_def withinBin_def positive_def)

lemma candidate_props:
  assumes "n \<in> set (candidates w h fr)" and "0 < w" and "0 < h"
  shows "\<exists>f\<in>set fr. isContainedIn n f" and "positive n"
proof -
  obtain f where f: "f \<in> set fr" "n \<in> set (orientations w h f)"
    using assms(1) by (auto simp: candidates_iff)
  from orientations_contained [OF f(2)] assms(2,3)
  have "isContainedIn n f" "positive n" by (auto simp: positive_def)
  then show "\<exists>f\<in>set fr. isContainedIn n f" "positive n" using f(1) by auto
qed

lemma insert_rect_success:
  "height (insert_findPosition w h m st) \<noteq> 0 \<Longrightarrow>
     insert_rect w h m st =
       (insert_findPosition w h m st,
        st\<lparr>freeRectangles :=
             pruneList (filter (\<lambda>f. disjoint f (insert_findPosition w h m st)) (freeRectangles st) @
               concat (map (\<lambda>f. appended f (insert_findPosition w h m st))
                 (filter (\<lambda>f. \<not> disjoint f (insert_findPosition w h m st)) (freeRectangles st)))),
           usedRectangles := usedRectangles st @ [insert_findPosition w h m st]\<rparr>)"
  by (simp add: insert_rect_def Let_def pruneFreeList_def pruneOuter_0 splitLoop_all)

lemma insert_rect_bin:
  "binWidth (snd (insert_rect w h m st)) = binWidth st \<and>
   binHeight (snd (insert_rect w h m st)) = binHeight st"
proof (cases "height (insert_findPosition w h m st) = 0")
  case True
  then show ?thesis by (simp add: insert_rect_def)
next
  case False
  then show ?thesis by (simp add: insert_rect_success)
qed

lemma packerInv_insert:
  assumes inv: "packerInv st" and w: "0 < w" and h: "0 < h"
  shows "packerInv (snd (insert_rect w h m st))"
proof (cases "height (insert_findPosition w h m st) = 0")
  case True
  then show ?thesis using inv by (simp add: insert_rect_def)
next
  case False
  define n where "n = insert_findPosition w h m st"
  define fr' where "fr' = filter (\<lambda>f. disjoint f n) (freeRectangles st) @
               concat (map (\<lambda>f. appended f n) (filter (\<lambda>f. \<not> disjoint f n) (freeRectangles st)))"
  have res: "snd (insert_rect w h m st) =
      st\<lparr>freeRectangles := pruneList fr', usedRectangles := usedRectangles st @ [n]\<rparr>"
    using False by (simp add: insert_rect_success n_def fr'_def)
  have "n \<noteq> zeroRect" using False by (auto simp: n_def zeroRect_def)
  then have cand: "n \<in> set (candidates w h (freeRectangles st))"
    using insert_findPosition_cases [of w h m st] by (simp add: n_def)
  from candidate_props [OF cand w h]
  obtain f0 where f0: "f0 \<in> set (freeRectangles st)" "isContainedIn n f0" and pn: "positive n"
    by blast
  have free: "withinBin st f \<and> positive f" if "f \<in> set (freeRectangles st)" for f
    using inv that by (simp add: packerInv_def)
  have used: "withinBin st u \<and> positive u" if "u \<in> set (usedRectangles st)" for u
    using inv that by (simp add: packerInv_def)
  have fu: "disjoint f u" if "f \<in> set (freeRectangles st)" "u \<in> set (usedRectangles st)" for f u
    using inv that by (simp add: packerInv_def)
  have wn: "withinBin st n"
    using withinBin_contained [OF f0(2)] free [OF f0(1)] by simp
  have nu: "disjoint u n" if "u \<in> set (usedRectangles st)" for u
    using disjoint_contained [OF f0(2) fu [OF f0(1) that]] by (rule disjoint_sym)
  have new: "\<exists>f\<in>set (freeRectangles st). isContainedIn r f \<and> positive r \<and> disjoint r n"
    if r: "r \<in> set fr'" for r
  proof -
    from r consider "r \<in> set (freeRectangles st)" "disjoint r n"
      | f where "f \<in> set (freeRectangles st)" "r \<in> set (appended f n)"
      by (auto simp: fr'_def)
    then show ?thesis
    proof cases
      case 1
      then show ?thesis using free [of r] isContainedIn_refl by blast
    next
      case 2
      have "0 < width f" "0 < height f" using free [OF 2(1)] by (simp_all add: positive_def)
      from appended_props [OF 2(2) this] show ?thesis
        using 2(1) by (auto simp: positive_def)
    qed
  qed
  have new': "\<exists>f\<in>set (freeRectangles st). isContainedIn r f \<and> positive r \<and> disjoint r n"
    if "r \<in> set (pruneList fr')" for r
    using new pruneList_set that by blast
  have a: "\<forall>r\<in>set (pruneList fr'). withinBin st r \<and> positive r"
    using new' free withinBin_contained by blast
  have b: "\<forall>u\<in>set (usedRectangles st @ [n]). withinBin st u \<and> positive u"
    using used wn pn by auto
  have c: "\<forall>r\<in>set (pruneList fr'). \<forall>u\<in>set (usedRectangles st @ [n]). disjoint r u"
  proof (intro ballI)
    fix r u assume r: "r \<in> set (pruneList fr')" and u: "u \<in> set (usedRectangles st @ [n])"
    obtain f where f: "f \<in> set (freeRectangles st)" "isContainedIn r f" "disjoint r n"
      using new' [OF r] by blast
    show "disjoint r u"
    proof (cases "u = n")
      case True
      then show ?thesis using f(3) by simp
    next
      case False
      then have "u \<in> set (usedRectangles st)" using u by simp
      from disjoint_contained [OF f(2) fu [OF f(1) this]] show ?thesis .
    qed
  qed
  have d: "pairwiseDisjoint (usedRectangles st @ [n])"
    using inv nu by (simp add: pairwiseDisjoint_snoc packerInv_def)
  show ?thesis
    unfolding res packerInv_def using a b c d by (simp add: withinBin_def)
qed

lemma run_inserts_bin:
  "binWidth (run_inserts st calls) = binWidth st \<and> binHeight (run_inserts st calls) = binHeight st"
  by (induction st calls rule: run_inserts.induct) (simp_all add: insert_rect_bin)

lemma packerInv_run:
  "packerInv st \<Longrightarrow> positiveCalls calls \<Longrightarrow> packerInv (run_inserts st calls)"
  by (induction st calls rule: run_inserts.induct)
     (simp_all add: packerInv_insert positiveCalls_def)

lemma packerInv_reached:
  "0 < bw \<Longrightarrow> 0 < bh \<Longrightarrow> positiveCalls calls \<Longrightarrow> packerInv (run_inserts (init bw bh st0) calls)"
  by (simp add: packerInv_run packerInv_init)

subsection \<open>Committed placements are disjoint\<close>

text \<open>
  \<^verbatim>\<open>DisjointRectCollection\<close> of \<^verbatim>\<open>Rect.h\<close>: \<^verbatim>\<open>disjoint(r)\<close> and \<^verbatim>\<open>add(r)\<close> on the vector
  \<open>rects\<close>, and the addition of a list of rectangles one after the other, which stops at
  the first one that is refused.
\<close>

definition collection_disjoint :: "Rect \<Rightarrow> Rect list \<Rightarrow> bool" where
  "collection_disjoint r rects =
     (if width r = 0 \<or> height r = 0 then True
      else list_all (\<lambda>rect. disjoint rect r) rects)"

definition collection_add :: "Rect \<Rightarrow> Rect list \<Rightarrow> bool \<times> Rect list" where
  "collection_add r rects =
     (if width r = 0 \<or> height r = 0 then (True, rects)
      else if \<not> collection_disjoint r rects then (False, rects)
      else (True, rects @ [r]))"

fun collection_add_all :: "Rect list \<Rightarrow> Rect list \<Rightarrow> bool \<times> Rect list" where
  "collection_add_all [] rects = (True, rects)"
| "collection_add_all (r # rs) rects =
     (let (ok, rects') = collection_add r rects in
      if ok then collection_add_all rs rects' else (False, rects'))"

lemma pairwiseDisjoint_append:
  "pairwiseDisjoint (as @ bs) \<longleftrightarrow>
     pairwiseDisjoint as \<and> pairwiseDisjoint bs \<and> (\<forall>a\<in>set as. \<forall>b\<in>set bs. disjoint a b)"
  by (induction as) auto

lemma collection_add_all_accepts:
  "pairwiseDisjoint (acc @ rs) \<Longrightarrow> \<forall>r\<in>set rs. positive r \<Longrightarrow>
     collection_add_all rs acc = (True, acc @ rs)"
proof (induction rs arbitrary: acc)
  case Nil
  then show ?case by simp
next
  case (Cons r rs)
  have p: "width r \<noteq> 0" "height r \<noteq> 0" using Cons.prems(2) by (auto simp: positive_def)
  have "\<forall>a\<in>set acc. disjoint a r"
    using Cons.prems(1) by (simp add: pairwiseDisjoint_append)
  then have "collection_add r acc = (True, acc @ [r])"
    using p by (simp add: collection_add_def collection_disjoint_def list_all_iff)
  moreover have "collection_add_all rs (acc @ [r]) = (True, (acc @ [r]) @ rs)"
    using Cons.prems by (intro Cons.IH) simp_all
  ultimately show ?case by simp
qed

text \<open>
  C1. After \<^verbatim>\<open>init\<close> with a positive bin width and height and any sequence of
  single-rectangle \<^verbatim>\<open>insert\<close> calls with positive widths and heights, under any
  heuristics, the used rectangles are pairwise disjoint: each is disjoint from every later
  one, by list position as well. All of them have positive width and height, so disjoint
  means that they share no area, and a \<^verbatim>\<open>DisjointRectCollection\<close> accepts all of them.
\<close>

theorem used_rectangles_disjoint:
  assumes "0 < bw" and "0 < bh" and "positiveCalls calls"
  shows "pairwiseDisjoint (usedRectangles (run_inserts (init bw bh st0) calls)) \<and>
         (\<forall>i j. i < j \<and> j < length (usedRectangles (run_inserts (init bw bh st0) calls)) \<longrightarrow>
            disjoint (usedRectangles (run_inserts (init bw bh st0) calls) ! i)
                     (usedRectangles (run_inserts (init bw bh st0) calls) ! j)) \<and>
         (\<forall>u\<in>set (usedRectangles (run_inserts (init bw bh st0) calls)). positive u) \<and>
         collection_add_all (usedRectangles (run_inserts (init bw bh st0) calls)) [] =
           (True, usedRectangles (run_inserts (init bw bh st0) calls))"
proof -
  define us where "us = usedRectangles (run_inserts (init bw bh st0) calls)"
  have inv: "packerInv (run_inserts (init bw bh st0) calls)"
    using assms by (rule packerInv_reached)
  then have pd: "pairwiseDisjoint us" and pos: "\<forall>u\<in>set us. positive u"
    by (simp_all add: packerInv_def us_def)
  have nth: "\<forall>i j. i < j \<and> j < length us \<longrightarrow> disjoint (us ! i) (us ! j)"
    using pairwiseDisjoint_nth [OF pd] by blast
  have acc: "collection_add_all us [] = (True, us)"
    using collection_add_all_accepts [of "[]" us] pd pos by simp
  show ?thesis
    using pd nth pos acc unfolding us_def by (intro conjI)
qed

theorem used_rectangles_disjoint_witness:
  "pairwiseDisjoint (usedRectangles (run_inserts (init 4 4 newPacker)
     [(2, 2, RectBestShortSideFit), (3, 1, RectContactPointRule), (1, 2, RectBottomLeftRule),
      (2, 2, RectBestAreaFit), (1, 1, RectBestLongSideFit)]))"
  using used_rectangles_disjoint [of 4 4
     "[(2, 2, RectBestShortSideFit), (3, 1, RectContactPointRule), (1, 2, RectBottomLeftRule),
      (2, 2, RectBestAreaFit), (1, 1, RectBestLongSideFit)]" newPacker]
  by (simp add: positiveCalls_def)

subsection \<open>Placements lie in the bin\<close>

text \<open>
  C4. After \<^verbatim>\<open>init\<close> with a positive bin width and height and any sequence of \<^verbatim>\<open>insert\<close>
  calls with positive sizes, a further \<^verbatim>\<open>insert\<close> with a positive size that returns a
  rectangle of non-zero height returns one with \<open>0 \<le> x\<close>, \<open>0 \<le> y\<close>,
  \<open>x + width \<le> binWidth\<close> and \<open>y + height \<le> binHeight\<close>.
\<close>

theorem placement_within_bin:
  assumes "0 < bw" and "0 < bh" and "positiveCalls calls" and "0 < w" and "0 < h"
    and "height (fst (insert_rect w h m (run_inserts (init bw bh st0) calls))) \<noteq> 0"
  shows "0 \<le> x (fst (insert_rect w h m (run_inserts (init bw bh st0) calls))) \<and>
         0 \<le> y (fst (insert_rect w h m (run_inserts (init bw bh st0) calls))) \<and>
         x (fst (insert_rect w h m (run_inserts (init bw bh st0) calls))) +
           width (fst (insert_rect w h m (run_inserts (init bw bh st0) calls))) \<le> bw \<and>
         y (fst (insert_rect w h m (run_inserts (init bw bh st0) calls))) +
           height (fst (insert_rect w h m (run_inserts (init bw bh st0) calls))) \<le> bh"
proof -
  define st where "st = run_inserts (init bw bh st0) calls"
  define n where "n = insert_findPosition w h m st"
  have inv: "packerInv st"
    unfolding st_def using assms(1-3) by (rule packerInv_reached)
  have bin: "binWidth st = bw" "binHeight st = bh"
    by (simp_all add: st_def run_inserts_bin init_def)
  have fst: "fst (insert_rect w h m st) = n"
    by (simp add: insert_rect_def n_def Let_def)
  then have "height n \<noteq> 0" using assms(6) by (simp add: st_def)
  then have "n \<noteq> zeroRect" by (auto simp: zeroRect_def)
  then have "n \<in> set (candidates w h (freeRectangles st))"
    using insert_findPosition_cases [of w h m st] by (simp add: n_def)
  from candidate_props(1) [OF this assms(4,5)]
  obtain f where f: "f \<in> set (freeRectangles st)" "isContainedIn n f" by blast
  have "withinBin st f" using inv f(1) by (simp add: packerInv_def)
  then have "withinBin st n" by (rule withinBin_contained [OF f(2)])
  then show ?thesis
    unfolding st_def [symmetric] fst by (simp add: withinBin_def bin)
qed

theorem placement_within_bin_witness:
  "fst (insert_rect 3 8 RectBestAreaFit (run_inserts (init 10 10 newPacker) [(8, 3, RectBestAreaFit)])) =
     \<lparr>x = 0, y = 3, width = 8, height = 3\<rparr> \<and> (0::int) + 8 \<le> 10 \<and> (3::int) + 3 \<le> 10"
proof -
  have e: "fst (insert_rect 3 8 RectBestAreaFit (run_inserts (init 10 10 newPacker) [(8, 3, RectBestAreaFit)])) =
     \<lparr>x = 0, y = 3, width = 8, height = 3\<rparr>"
    by code_simp
  from placement_within_bin [of 10 10 "[(8, 3, RectBestAreaFit)]" 3 8 RectBestAreaFit newPacker]
  show ?thesis unfolding e by (simp add: positiveCalls_def)
qed

subsection \<open>A request of size zero\<close>

lemma insert_findPosition_zero: "height (insert_findPosition 0 0 m st) = 0"
  using insert_findPosition_cases [of 0 0 m st]
  by (auto simp: zeroRect_def candidates_iff orientations_def split: if_splits)

text \<open>
  C10. Under each heuristic, \<^verbatim>\<open>insert\<close> with width 0 and height 0 returns a rectangle of
  height 0 and leaves the packer as it was, from any state. In a packer reached from
  \<^verbatim>\<open>init\<close> by insertions of positive sizes, every free region has a non-negative width
  and height, and so accommodates the request in the scorers' test.
\<close>

theorem insert_zero_size_fails:
  "height (fst (insert_rect 0 0 m st)) = 0 \<and> snd (insert_rect 0 0 m st) = st \<and>
   (0 < bw \<and> 0 < bh \<and> positiveCalls calls \<and> st = run_inserts (init bw bh st0) calls \<longrightarrow>
      (\<forall>f\<in>set (freeRectangles st). 0 \<le> width f \<and> 0 \<le> height f))"
proof (intro conjI impI)
  show "height (fst (insert_rect 0 0 m st)) = 0"
    by (simp add: insert_rect_def insert_findPosition_zero)
  show "snd (insert_rect 0 0 m st) = st"
    by (simp add: insert_rect_def insert_findPosition_zero)
next
  assume a: "0 < bw \<and> 0 < bh \<and> positiveCalls calls \<and> st = run_inserts (init bw bh st0) calls"
  then have "packerInv st" using packerInv_reached by blast
  then show "\<forall>f\<in>set (freeRectangles st). 0 \<le> width f \<and> 0 \<le> height f"
    by (auto simp: packerInv_def positive_def)
qed

theorem insert_zero_size_fails_witness:
  "insert_rect 0 0 RectBestShortSideFit (init 4 4 newPacker) = (zeroRect, init 4 4 newPacker) \<and>
   freeRectangles (init 4 4 newPacker) = [\<lparr>x = 0, y = 0, width = 4, height = 4\<rparr>]"
proof -
  have e: "fst (insert_rect 0 0 RectBestShortSideFit (init 4 4 newPacker)) = zeroRect"
    by code_simp
  have r: "run_inserts (init 4 4 newPacker) [] = init 4 4 newPacker" by simp
  from insert_zero_size_fails [of RectBestShortSideFit "init 4 4 newPacker" 4 4 "[]" newPacker]
  have "snd (insert_rect 0 0 RectBestShortSideFit (init 4 4 newPacker)) = init 4 4 newPacker"
    by blast
  then show ?thesis using e by (simp add: prod_eq_iff init_def)
qed

subsection \<open>Insertion fails exactly when nothing fits\<close>





















end
